theory Spec2Isabelle
  imports
    Main
    "HOL-Library.Multiset"
    "HOL-Library.Product_Lexorder"
    "HOL-Library.List_Lexorder"
    "HOL-Library.Char_ord"
begin

section \<open>Python containers\<close>

text \<open>
  A Python \<open>set\<close> is modelled by the list of its elements in the order they were first
  added (a list without duplicates). Python does not iterate a set in that order: the order
  is chosen by the runtime. The runtime's choice is the parameter \<open>so\<close> of the model:
  \<open>py_iter so s\<close> is the sequence a \<open>for x in s\<close> loop visits. Whatever \<open>so\<close> is,
  the loop visits every element exactly once.

  The parameter is applied at the two loops whose order can reach the returned values:
  the comprehension over \<open>compared_movie_ids\<close> in \<open>compute_user_rankings\<close> and the
  comprehension over \<open>remaining\<close> in \<open>compute_ranked_pairs\<close>. The other loops over sets
  count, test membership, mark, or collect into another set or dict, and what they compute
  does not depend on the order; they are run in list order.
\<close>

definition py_iter :: "('a list \<Rightarrow> 'a list) \<Rightarrow> 'a list \<Rightarrow> 'a list" where
  "py_iter so s = (if mset (so s) = mset s then so s else s)"

definition set_add :: "'a \<Rightarrow> 'a list \<Rightarrow> 'a list" where
  "set_add x s = (if x \<in> set s then s else s @ [x])"

text \<open>
  A \<open>defaultdict(set)\<close> is an association list in key insertion order.
  \<open>dd_get\<close> is \<open>d.get(k, [])\<close> (it creates no entry), \<open>dd_add\<close> is \<open>d[k].add(v)\<close>
  (it creates the entry when the key is new).
\<close>

type_synonym 'a ddict = "('a \<times> 'a list) list"

definition dd_get :: "'a ddict \<Rightarrow> 'a \<Rightarrow> 'a list" where
  "dd_get d k = (case map_of d k of None \<Rightarrow> [] | Some s \<Rightarrow> s)"

definition dd_add :: "'a ddict \<Rightarrow> 'a \<Rightarrow> 'a \<Rightarrow> 'a ddict" where
  "dd_add d k v =
     (case map_of d k of
        None \<Rightarrow> d @ [(k, [v])]
      | Some s \<Rightarrow> map (\<lambda>(k', s'). if k' = k then (k', set_add v s') else (k', s')) d)"

definition dd_edges :: "'a ddict \<Rightarrow> ('a \<times> 'a) set" where
  "dd_edges d = {(a, b). b \<in> set (dd_get d a)}"

definition dd_nodes :: "'a ddict \<Rightarrow> 'a set" where
  "dd_nodes d = (\<Union>(k, s) \<in> set d. set s)"

section \<open>Ranked Pairs: \<open>compute_ranked_pairs\<close> of visualize_condorcet.py\<close>

text \<open>
  The matrix is a numpy array of 64-bit signed ints; an entry is kept as an \<open>int\<close> in that
  range. numpy subtracts and negates such values modulo \<open>2 ^ 64\<close>, which \<open>wrap64\<close> writes
  out; comparisons need no wrap. Titles are Python strings, compared by code point; a
  \<open>string\<close> here is the UTF-8 text, whose bytewise lexicographic order is the same order.
\<close>

definition wrap64 :: "int \<Rightarrow> int" where
  "wrap64 x = (x + 2 ^ 63) mod 2 ^ 64 - 2 ^ 63"

type_synonym matrix = "int list list"

text \<open>A pair record \<open>(winner, loser, margin, votes)\<close>.\<close>

type_synonym pair = "nat \<times> nat \<times> int \<times> int"

text \<open>\<open>matrix[i][j]\<close>; \<open>None\<close> is the IndexError of an index out of range.\<close>

definition mat_get :: "matrix \<Rightarrow> nat \<Rightarrow> nat \<Rightarrow> int option" where
  "mat_get m i j = (if i < length m \<and> j < length (m ! i) then Some (m ! i ! j) else None)"

text \<open>The body of the inner loop at \<open>(i, j)\<close>: the records it appends.\<close>

definition pair_at :: "matrix \<Rightarrow> nat \<Rightarrow> nat \<Rightarrow> pair list option" where
  "pair_at m i j =
     (case mat_get m i j of
        None \<Rightarrow> None
      | Some votes_i \<Rightarrow>
          (case mat_get m j i of
             None \<Rightarrow> None
           | Some votes_j \<Rightarrow>
               Some (if votes_i > votes_j then [(i, j, wrap64 (votes_i - votes_j), votes_i)]
                     else if votes_j > votes_i then [(j, i, wrap64 (votes_j - votes_i), votes_j)]
                     else [])))"

text \<open>\<open>for i in range(n): for j in range(i + 1, n)\<close>.\<close>

definition index_pairs :: "nat \<Rightarrow> (nat \<times> nat) list" where
  "index_pairs n = concat (map (\<lambda>i. map (\<lambda>j. (i, j)) [Suc i ..< n]) [0 ..< n])"

definition collect_pairs :: "nat \<Rightarrow> matrix \<Rightarrow> pair list option" where
  "collect_pairs n m = map_option concat (those (map (\<lambda>(i, j). pair_at m i j) (index_pairs n)))"

text \<open>
  \<open>pairs.sort(key=lambda x: (-x[2], -x[3]))\<close>: a stable sort on the tuple key. Both
  components of a record are 64-bit values, and so are their negations.
\<close>

definition pair_key :: "pair \<Rightarrow> int \<times> int" where
  "pair_key p = (case p of (w, l, margin, votes) \<Rightarrow> (wrap64 (- margin), wrap64 (- votes)))"

definition sort_pairs :: "pair list \<Rightarrow> pair list" where
  "sort_pairs ps = sort_key pair_key ps"

text \<open>
  \<open>would_create_cycle\<close>: the stack is kept with its top at the head, so \<open>stack.pop()\<close>
  takes the head and \<open>stack.extend(xs)\<close> puts \<open>rev xs\<close> in front.
\<close>

definition wcc_todo :: "nat ddict \<Rightarrow> nat list \<Rightarrow> nat list \<Rightarrow> nat" where
  "wcc_todo locked visited stack = card ((dd_nodes locked \<union> set stack) - set visited)"

function wcc_loop :: "nat ddict \<Rightarrow> nat \<Rightarrow> nat list \<Rightarrow> nat list \<Rightarrow> bool" where
  "wcc_loop locked winner visited [] = False"
| "wcc_loop locked winner visited (current # stack) =
     (if current = winner then True
      else if current \<in> set visited then wcc_loop locked winner visited stack
      else wcc_loop locked winner (set_add current visited)
             (rev (dd_get locked current) @ stack))"
  by pat_completeness auto


lemma dd_get_nodes: "set (dd_get d k) \<subseteq> dd_nodes d"
proof (cases "map_of d k")
  case None
  then show ?thesis by (simp add: dd_get_def)
next
  case (Some s)
  then have "(k, s) \<in> set d" by (rule map_of_SomeD)
  then show ?thesis using Some by (auto simp: dd_get_def dd_nodes_def)
qed

lemma finite_dd_nodes: "finite (dd_nodes d)"
  by (auto simp: dd_nodes_def)

lemma set_set_add: "set (set_add x s) = insert x (set s)"
  by (auto simp: set_add_def)

termination wcc_loop
proof (relation "measures [\<lambda>(l, w, v, s). wcc_todo l v s, \<lambda>(l, w, v, s). length s]", goal_cases)
  case 1
  show ?case by simp
next
  case (2 locked winner visited current stack)
  have "(dd_nodes locked \<union> set stack) - set visited
        \<subseteq> (dd_nodes locked \<union> set (current # stack)) - set visited"
    by auto
  then have "wcc_todo locked visited stack \<le> wcc_todo locked visited (current # stack)"
    unfolding wcc_todo_def by (intro card_mono) (auto simp: finite_dd_nodes)
  then show ?case by auto
next
  case (3 locked winner visited current stack)
  have "(dd_nodes locked \<union> set (rev (dd_get locked current) @ stack))
          - set (set_add current visited)
        \<subset> (dd_nodes locked \<union> set (current # stack)) - set visited"
    using 3 dd_get_nodes[of locked current] by (auto simp: set_set_add)
  then have "wcc_todo locked (set_add current visited) (rev (dd_get locked current) @ stack)
      < wcc_todo locked visited (current # stack)"
    unfolding wcc_todo_def by (intro psubset_card_mono) (auto simp: finite_dd_nodes)
  then show ?case by auto
qed

definition would_create_cycle :: "nat ddict \<Rightarrow> nat \<Rightarrow> nat \<Rightarrow> bool" where
  "would_create_cycle locked winner loser = wcc_loop locked winner [] [loser]"

text \<open>One round of \<open>for winner, loser, margin, _ in pairs\<close>.\<close>

definition lock_step :: "pair \<Rightarrow> nat ddict \<Rightarrow> nat ddict" where
  "lock_step p locked =
     (case p of (winner, loser, margin, votes) \<Rightarrow>
        if \<not> would_create_cycle locked winner loser then dd_add locked winner loser
        else locked)"

definition lock_pairs :: "pair list \<Rightarrow> nat ddict" where
  "lock_pairs ps = fold lock_step ps []"

text \<open>
  \<open>in_degree\<close> is a dict with the keys \<open>range(n)\<close>; every index the code looks up is a
  candidate index below \<open>n\<close>, so the dict is a total function here.
\<close>

definition init_in_degree :: "nat ddict \<Rightarrow> nat \<Rightarrow> int" where
  "init_in_degree locked =
     fold (\<lambda>(winner, losers) deg. fold (\<lambda>loser d. d(loser := d loser + 1)) losers deg)
       locked (\<lambda>i. 0)"

record kahn_state =
  ks_ranking :: "nat list"
  ks_remaining :: "nat list"
  ks_in_degree :: "nat \<Rightarrow> int"

text \<open>\<open>sorted(xs, key=lambda i: movie_titles[i])\<close>; \<open>None\<close> is the IndexError.\<close>

definition sort_by_title :: "string list \<Rightarrow> nat list \<Rightarrow> nat list option" where
  "sort_by_title movie_titles xs =
     (if list_all (\<lambda>i. i < length movie_titles) xs
      then Some (sort_key (\<lambda>i. movie_titles ! i) xs) else None)"

text \<open>The body of \<open>for s in sources\<close>.\<close>

definition emit_source :: "nat ddict \<Rightarrow> nat \<Rightarrow> kahn_state \<Rightarrow> kahn_state" where
  "emit_source locked s st =
     \<lparr>ks_ranking = ks_ranking st @ [s],
      ks_remaining = removeAll s (ks_remaining st),
      ks_in_degree = fold (\<lambda>neighbor d. d(neighbor := d neighbor - 1)) (dd_get locked s)
                    (ks_in_degree st)\<rparr>"

definition kahn_sources :: "(nat list \<Rightarrow> nat list) \<Rightarrow> kahn_state \<Rightarrow> nat list" where
  "kahn_sources so st = filter (\<lambda>i. ks_in_degree st i = 0) (py_iter so (ks_remaining st))"

lemma filter_removeAll_notin:
  "filter (\<lambda>y. y \<notin> set xs) (removeAll x ys) = filter (\<lambda>y. y \<notin> set (x # xs)) ys"
  by (induction ys) auto

lemma remaining_emit_all:
  "ks_remaining (fold (emit_source locked) xs st) = filter (\<lambda>x. x \<notin> set xs) (ks_remaining st)"
proof (induction xs arbitrary: st)
  case Nil
  show ?case by simp
next
  case (Cons x xs)
  have "ks_remaining (emit_source locked x st) = removeAll x (ks_remaining st)"
    by (simp add: emit_source_def)
  then show ?case using Cons.IH[of "emit_source locked x st"]
    by (simp add: filter_removeAll_notin)
qed

lemma set_py_iter: "set (py_iter so s) = set s"
  by (metis py_iter_def set_mset_mset)

lemma mset_py_iter: "mset (py_iter so s) = mset s"
  by (simp add: py_iter_def)

lemma sort_by_title_Some:
  "sort_by_title ts xs = Some ys \<Longrightarrow> ys = sort_key (\<lambda>i. ts ! i) xs"
  by (auto simp: sort_by_title_def split: if_splits)

function kahn_loop ::
  "(nat list \<Rightarrow> nat list) \<Rightarrow> string list \<Rightarrow> nat ddict \<Rightarrow> kahn_state \<Rightarrow> nat list option" where
  "kahn_loop so movie_titles locked st =
     (if ks_remaining st = [] then Some (ks_ranking st)
      else if kahn_sources so st = [] then
        (case sort_by_title movie_titles (py_iter so (ks_remaining st)) of
           None \<Rightarrow> None
         | Some remaining_sorted \<Rightarrow> Some (ks_ranking st @ remaining_sorted))
      else
        (case sort_by_title movie_titles (kahn_sources so st) of
           None \<Rightarrow> None
         | Some sources \<Rightarrow>
             kahn_loop so movie_titles locked (fold (emit_source locked) sources st)))"
  by pat_completeness auto
termination
proof (relation "measure (\<lambda>(so, ts, l, st). length (ks_remaining st))", goal_cases)
  case 1
  show ?case by simp
next
  case (2 so movie_titles locked st sources)
  from 2(2) obtain s where s: "s \<in> set (kahn_sources so st)"
    by (cases "kahn_sources so st") auto
  then have "s \<in> set (ks_remaining st)"
    by (auto simp: kahn_sources_def set_py_iter)
  moreover have "s \<in> set sources"
    using s sort_by_title_Some[OF 2(3)] by simp
  ultimately have "length (filter (\<lambda>x. x \<notin> set sources) (ks_remaining st)) < length (ks_remaining st)"
    by (intro length_filter_less) auto
  then show ?case by (simp add: remaining_emit_all)
qed

declare kahn_loop.simps [simp del]

definition compute_ranked_pairs ::
  "(nat list \<Rightarrow> nat list) \<Rightarrow> int list \<Rightarrow> string list \<Rightarrow> matrix
     \<Rightarrow> (nat list \<times> nat ddict) option" where
  "compute_ranked_pairs so movie_ids movie_titles m =
     (case collect_pairs (length movie_ids) m of
        None \<Rightarrow> None
      | Some pairs \<Rightarrow>
          (let locked = lock_pairs (sort_pairs pairs) in
           case kahn_loop so movie_titles locked
                  \<lparr>ks_ranking = [], ks_remaining = [0 ..< length movie_ids],
                   ks_in_degree = init_in_degree locked\<rparr> of
             None \<Rightarrow> None
           | Some r \<Rightarrow> Some (r, locked)))"

section \<open>Vocabulary for the properties of Ranked Pairs\<close>

text \<open>A pairwise matrix for \<open>n\<close> candidates is an \<open>n \<times> n\<close> table.\<close>

definition square :: "nat \<Rightarrow> matrix \<Rightarrow> bool" where
  "square n m = (length m = n \<and> list_all (\<lambda>row. length row = n) m)"

text \<open>
  A pairwise matrix holds vote counts: every entry is a non-negative 64-bit value.
\<close>

definition vote_counts :: "matrix \<Rightarrow> bool" where
  "vote_counts m = list_all (list_all (\<lambda>v. 0 \<le> v \<and> v < 2 ^ 63)) m"

definition pair_winner :: "pair \<Rightarrow> nat" where "pair_winner p = fst p"

definition pair_loser :: "pair \<Rightarrow> nat" where "pair_loser p = fst (snd p)"

definition pair_margin :: "pair \<Rightarrow> int" where "pair_margin p = fst (snd (snd p))"

definition pair_votes :: "pair \<Rightarrow> int" where "pair_votes p = snd (snd (snd p))"

text \<open>The records of the pair \<open>(i, j)\<close> when both reads are in range.\<close>

definition recs_at :: "matrix \<Rightarrow> nat \<Rightarrow> nat \<Rightarrow> pair list" where
  "recs_at m i j =
     (if m ! i ! j > m ! j ! i then [(i, j, wrap64 (m ! i ! j - m ! j ! i), m ! i ! j)]
      else if m ! j ! i > m ! i ! j then [(j, i, wrap64 (m ! j ! i - m ! i ! j), m ! j ! i)]
      else [])"

text \<open>A record is about the unordered pair \<open>{i, j}\<close>.\<close>

definition about :: "nat \<Rightarrow> nat \<Rightarrow> pair \<Rightarrow> bool" where
  "about i j p = ({pair_winner p, pair_loser p} = {i, j})"

section \<open>Per-voter rankings: \<open>compute_user_rankings\<close> of visualize_condorcet.py\<close>

text \<open>A preference statement \<open>(movie_a, movie_b, preference)\<close> and a voter's rank map.\<close>

type_synonym pref = "int \<times> int \<times> int"

type_synonym rank_map = "int \<rightharpoonup> nat"

text \<open>The set \<open>compared_movie_ids\<close>, and the list comprehension over it.\<close>

definition compared_movie_ids :: "pref list \<Rightarrow> int list" where
  "compared_movie_ids prefs =
     fold (\<lambda>(movie_a, movie_b, pref) s. set_add movie_b (set_add movie_a s)) prefs []"

definition movies_to_rank :: "(int list \<Rightarrow> int list) \<Rightarrow> pref list \<Rightarrow> int set \<Rightarrow> int list" where
  "movies_to_rank so prefs unwatched_movie_ids =
     filter (\<lambda>mid. mid \<in> unwatched_movie_ids) (py_iter so (compared_movie_ids prefs))"

text \<open>
  The directed graph and the dict \<open>in_degree\<close>. The set \<open>compared_pairs\<close> of the source is
  written and never read; it is left out. \<open>in_degree\<close> has the keys \<open>movies_to_rank\<close>, and
  the guard of the loop lets only those keys through, so it is a total function here.
\<close>

definition graph_step :: "int set \<Rightarrow> pref \<Rightarrow> int ddict \<times> (int \<Rightarrow> int) \<Rightarrow> int ddict \<times> (int \<Rightarrow> int)" where
  "graph_step movie_ids_set p st =
     (case p of (movie_a, movie_b, pref) \<Rightarrow>
      case st of (graph, in_degree) \<Rightarrow>
        if movie_a \<notin> movie_ids_set \<or> movie_b \<notin> movie_ids_set then st
        else if pref > 0 then
          (if movie_b \<notin> set (dd_get graph movie_a)
           then (dd_add graph movie_a movie_b, in_degree(movie_b := in_degree movie_b + 1))
           else st)
        else if pref < 0 then
          (if movie_a \<notin> set (dd_get graph movie_b)
           then (dd_add graph movie_b movie_a, in_degree(movie_a := in_degree movie_a + 1))
           else st)
        else st)"

definition build_graph :: "int set \<Rightarrow> pref list \<Rightarrow> int ddict \<times> (int \<Rightarrow> int)" where
  "build_graph movie_ids_set prefs = fold (graph_step movie_ids_set) prefs ([], \<lambda>mid. 0)"

text \<open>The undirected comparison graph.\<close>

definition comparison_step :: "int set \<Rightarrow> pref \<Rightarrow> int ddict \<Rightarrow> int ddict" where
  "comparison_step movie_ids_set p comparison_graph =
     (case p of (movie_a, movie_b, pref) \<Rightarrow>
        if movie_a \<in> movie_ids_set \<and> movie_b \<in> movie_ids_set
        then dd_add (dd_add comparison_graph movie_a movie_b) movie_b movie_a
        else comparison_graph)"

definition build_comparison_graph :: "int set \<Rightarrow> pref list \<Rightarrow> int ddict" where
  "build_comparison_graph movie_ids_set prefs = fold (comparison_step movie_ids_set) prefs []"

text \<open>
  The nested function \<open>dfs\<close>. It shares \<open>visited\<close> with the loop that calls it, so the
  model takes \<open>visited\<close> and returns it with the component. The stack has its top at the
  head: the neighbours are appended one by one, so the last one is popped first.
\<close>

definition dfs_todo :: "int ddict \<Rightarrow> int list \<Rightarrow> int list \<Rightarrow> nat" where
  "dfs_todo comparison_graph visited stack =
     card ((dd_nodes comparison_graph \<union> set stack) - set visited)"

function dfs_loop :: "int ddict \<Rightarrow> int list \<Rightarrow> int list \<Rightarrow> int list \<Rightarrow> int list \<times> int list" where
  "dfs_loop comparison_graph visited component [] = (visited, component)"
| "dfs_loop comparison_graph visited component (node # stack) =
     (if node \<in> set visited then dfs_loop comparison_graph visited component stack
      else dfs_loop comparison_graph (set_add node visited) (component @ [node])
             (rev (filter (\<lambda>neighbor. neighbor \<notin> set (set_add node visited))
                     (dd_get comparison_graph node)) @ stack))"
  by pat_completeness auto
termination
proof (relation "measures [\<lambda>(g, v, c, s). dfs_todo g v s, \<lambda>(g, v, c, s). length s]", goal_cases)
  case 1
  show ?case by simp
next
  case (2 comparison_graph visited component node stack)
  have "(dd_nodes comparison_graph \<union> set stack) - set visited
        \<subseteq> (dd_nodes comparison_graph \<union> set (node # stack)) - set visited"
    by auto
  then have "dfs_todo comparison_graph visited stack
             \<le> dfs_todo comparison_graph visited (node # stack)"
    unfolding dfs_todo_def by (intro card_mono) (auto simp: finite_dd_nodes)
  then show ?case by auto
next
  case (3 comparison_graph visited component node stack)
  let ?pushed = "rev (filter (\<lambda>neighbor. neighbor \<notin> set (set_add node visited))
                        (dd_get comparison_graph node))"
  have "(dd_nodes comparison_graph \<union> set (?pushed @ stack)) - set (set_add node visited)
        \<subset> (dd_nodes comparison_graph \<union> set (node # stack)) - set visited"
    using 3 dd_get_nodes[of comparison_graph node] by (auto simp: set_set_add)
  then have "dfs_todo comparison_graph (set_add node visited) (?pushed @ stack)
             < dfs_todo comparison_graph visited (node # stack)"
    unfolding dfs_todo_def by (intro psubset_card_mono) (auto simp: finite_dd_nodes)
  then show ?case by auto
qed

definition dfs :: "int ddict \<Rightarrow> int list \<Rightarrow> int \<Rightarrow> int list \<times> int list" where
  "dfs comparison_graph visited start = dfs_loop comparison_graph visited [] [start]"

text \<open>\<open>for mid in movies_to_rank: if mid not in visited: components.append(dfs(mid))\<close>.\<close>

definition components_step :: "int ddict \<Rightarrow> int \<Rightarrow> int list \<times> int list list \<Rightarrow> int list \<times> int list list" where
  "components_step comparison_graph mid st =
     (case st of (visited, components) \<Rightarrow>
        if mid \<notin> set visited
        then (case dfs comparison_graph visited mid of
                (visited', component) \<Rightarrow> (visited', components @ [component]))
        else st)"

definition find_components :: "int ddict \<Rightarrow> int list \<Rightarrow> int list list" where
  "find_components comparison_graph to_rank =
     snd (fold (components_step comparison_graph) to_rank ([], []))"

text \<open>
  \<open>components.sort(key=lambda x: -len(x))\<close>, a stable sort, and
  \<open>set(components[0]) if components else set()\<close>. A component has no duplicates, so the
  set is the list.
\<close>

definition sort_components :: "int list list \<Rightarrow> int list list" where
  "sort_components components = sort_key (\<lambda>x. - int (length x)) components"

definition main_of :: "int list list \<Rightarrow> int list" where
  "main_of components = (case components of [] \<Rightarrow> [] | c # cs \<Rightarrow> c)"

text \<open>
  \<open>component_in_degree\<close>: its keys are the main component, every update is at such a key
  and the read is \<open>.get(mid, 0)\<close>, so it is a total function with default \<open>0\<close>.
\<close>

definition init_component_in_degree :: "int ddict \<Rightarrow> int list \<Rightarrow> int \<Rightarrow> int" where
  "init_component_in_degree graph main_component =
     fold (\<lambda>from_node deg.
             fold (\<lambda>to_node d. if to_node \<in> set main_component
                                then d(to_node := d to_node + 1) else d)
               (dd_get graph from_node) deg)
       main_component (\<lambda>mid. 0)"

record rank_state =
  rs_rank_map :: rank_map
  rs_remaining :: "int list"
  rs_in_degree :: "int \<Rightarrow> int"

text \<open>The body of \<open>for mid in sources\<close>.\<close>

definition rank_source :: "int ddict \<Rightarrow> nat \<Rightarrow> int \<Rightarrow> rank_state \<Rightarrow> rank_state" where
  "rank_source graph current_rank mid st =
     \<lparr>rs_rank_map = (rs_rank_map st)(mid \<mapsto> current_rank),
      rs_remaining = removeAll mid (rs_remaining st),
      rs_in_degree =
        fold (\<lambda>neighbor d. if neighbor \<in> set (removeAll mid (rs_remaining st))
                            then d(neighbor := d neighbor - 1) else d)
          (dd_get graph mid) (rs_in_degree st)\<rparr>"

definition rank_sources :: "rank_state \<Rightarrow> int list" where
  "rank_sources st = filter (\<lambda>mid. rs_in_degree st mid = 0) (rs_remaining st)"

lemma rs_remaining_rank_all:
  "rs_remaining (fold (rank_source graph r) xs st) = filter (\<lambda>x. x \<notin> set xs) (rs_remaining st)"
proof (induction xs arbitrary: st)
  case Nil
  show ?case by simp
next
  case (Cons x xs)
  have "rs_remaining (rank_source graph r x st) = removeAll x (rs_remaining st)"
    by (simp add: rank_source_def)
  then show ?case using Cons.IH[of "rank_source graph r x st"]
    by (simp add: filter_removeAll_notin)
qed

lemma rank_sources_shrink:
  "rank_sources st \<noteq> [] \<Longrightarrow>
   length (rs_remaining (fold (rank_source graph r) (rank_sources st) st)) < length (rs_remaining st)"
proof -
  assume "rank_sources st \<noteq> []"
  then obtain s where s: "s \<in> set (rank_sources st)" by (cases "rank_sources st") auto
  then have "s \<in> set (rs_remaining st)" by (simp add: rank_sources_def)
  then have "length (filter (\<lambda>x. x \<notin> set (rank_sources st)) (rs_remaining st))
             < length (rs_remaining st)"
    using s by (intro length_filter_less) auto
  then show ?thesis by (simp add: rs_remaining_rank_all)
qed

text \<open>The \<open>while remaining\<close> loop, with the list \<open>unranked_ids\<close> it extends on a cycle.\<close>

function rank_loop :: "int ddict \<Rightarrow> rank_state \<Rightarrow> nat \<Rightarrow> int list \<Rightarrow> rank_map \<times> int list" where
  "rank_loop graph st current_rank unranked_ids =
     (if rs_remaining st = [] then (rs_rank_map st, unranked_ids)
      else if rank_sources st = [] then (rs_rank_map st, unranked_ids @ rs_remaining st)
      else rank_loop graph (fold (rank_source graph current_rank) (rank_sources st) st)
             (current_rank + 1) unranked_ids)"
  by pat_completeness auto
termination
  by (relation "measure (\<lambda>(g, st, r, u). length (rs_remaining st))")
     (simp_all add: rank_sources_shrink)

declare rank_loop.simps [simp del]

text \<open>
  The function is in two parts: \<open>rank_movies\<close> is its body from
  \<open>movie_ids_set = set(movies_to_rank)\<close> on, for a list \<open>movies_to_rank\<close> that is not
  empty; \<open>compute_user_rankings\<close> is the two early returns around it.
\<close>

definition rank_movies :: "pref list \<Rightarrow> int list \<Rightarrow> rank_map \<times> int set" where
  "rank_movies prefs to_rank =
     (let movie_ids_set = set to_rank;
          graph = fst (build_graph movie_ids_set prefs);
          comparison_graph = build_comparison_graph movie_ids_set prefs;
          components = sort_components (find_components comparison_graph to_rank);
          main_component = main_of components;
          unranked_ids = filter (\<lambda>mid. mid \<notin> set main_component) to_rank
      in case rank_loop graph
                \<lparr>rs_rank_map = Map.empty, rs_remaining = main_component,
                 rs_in_degree = init_component_in_degree graph main_component\<rparr>
                1 unranked_ids of
           (rank_map, unranked_ids') \<Rightarrow> (rank_map, set unranked_ids'))"

definition compute_user_rankings ::
  "(int list \<Rightarrow> int list) \<Rightarrow> pref list \<Rightarrow> int set \<Rightarrow> rank_map \<times> int set" where
  "compute_user_rankings so prefs unwatched_movie_ids =
     (if prefs = [] then (Map.empty, {})
      else if movies_to_rank so prefs unwatched_movie_ids = [] then (Map.empty, {})
      else rank_movies prefs (movies_to_rank so prefs unwatched_movie_ids))"

section \<open>Per-voter rankings: \<open>compute_user_rankings\<close> of visualize_vote.py\<close>

text \<open>
  The function builds \<open>compared\<close>, \<open>to_rank\<close>, \<open>graph\<close>, \<open>in_degree\<close>, \<open>comp_graph\<close>,
  the components and \<open>comp_in_deg\<close> by the statements of the function above, with the
  traversal written in line instead of as a nested function; those steps are the same
  definitions. Its \<open>while remaining\<close> loop keeps no list of unranked options and returns
  the rank map alone.
\<close>

function vote_rank_loop :: "int ddict \<Rightarrow> rank_state \<Rightarrow> nat \<Rightarrow> rank_map" where
  "vote_rank_loop graph st rank =
     (if rs_remaining st = [] then rs_rank_map st
      else if rank_sources st = [] then rs_rank_map st
      else vote_rank_loop graph (fold (rank_source graph rank) (rank_sources st) st) (rank + 1))"
  by pat_completeness auto
termination
  by (relation "measure (\<lambda>(g, st, r). length (rs_remaining st))")
     (simp_all add: rank_sources_shrink)

declare vote_rank_loop.simps [simp del]

definition vote_rank_options :: "pref list \<Rightarrow> int list \<Rightarrow> rank_map" where
  "vote_rank_options prefs to_rank =
     (let to_rank_set = set to_rank;
          graph = fst (build_graph to_rank_set prefs);
          comp_graph = build_comparison_graph to_rank_set prefs;
          components = sort_components (find_components comp_graph to_rank);
          main = main_of components
      in vote_rank_loop graph
           \<lparr>rs_rank_map = Map.empty, rs_remaining = main,
            rs_in_degree = init_component_in_degree graph main\<rparr> 1)"

definition vote_compute_user_rankings ::
  "(int list \<Rightarrow> int list) \<Rightarrow> pref list \<Rightarrow> int set \<Rightarrow> rank_map" where
  "vote_compute_user_rankings so prefs option_ids_set =
     (if prefs = [] then Map.empty
      else if movies_to_rank so prefs option_ids_set = [] then Map.empty
      else vote_rank_options prefs (movies_to_rank so prefs option_ids_set))"

section \<open>The pairwise matrix: \<open>compute_condorcet_matrix\<close> and \<open>compute_vote_matrix\<close>\<close>

text \<open>
  What the functions read from the database is a parameter of the model: the unwatched
  movies (the items of the dict, in id order), the attendees of the next event, the voters
  the code falls back to, and each voter's statements.
\<close>

record db =
  unwatched_movies :: "(int \<times> string) list"
  attendees :: "string list"
  all_voters :: "string list"
  user_preferences :: "string \<Rightarrow> pref list"

record user_ranking =
  rank_map :: rank_map
  unranked_set :: "int set"

text \<open>Whether one voter's rank map makes the code run \<open>matrix[i][j] += 1\<close>.\<close>

definition vote_for :: "rank_map \<Rightarrow> int \<Rightarrow> int \<Rightarrow> bool" where
  "vote_for rm movie_a movie_b =
     (case rm movie_a of
        None \<Rightarrow> False
      | Some rank_a \<Rightarrow> (case rm movie_b of None \<Rightarrow> True | Some rank_b \<Rightarrow> rank_a < rank_b))"

text \<open>
  \<open>matrix[i][j] += 1\<close> on the \<open>n \<times> n\<close> array of zeros; both indices come from
  \<open>enumerate(movie_ids)\<close> and are in range. An entry counts voters of \<open>user_rankings\<close>,
  one step at a time from zero, so this 64-bit addition would need \<open>2 ^ 63\<close> voters to
  wrap and is the addition of \<open>int\<close>.
\<close>

definition mat_inc :: "matrix \<Rightarrow> nat \<Rightarrow> nat \<Rightarrow> matrix" where
  "mat_inc m i j = m[i := (m ! i)[j := m ! i ! j + 1]]"

definition zeros :: "nat \<Rightarrow> matrix" where
  "zeros n = replicate n (replicate n 0)"

definition cell_loop :: "rank_map list \<Rightarrow> int \<Rightarrow> int \<Rightarrow> nat \<Rightarrow> nat \<Rightarrow> matrix \<Rightarrow> matrix" where
  "cell_loop rank_maps movie_a movie_b i j m =
     fold (\<lambda>rm m'. if vote_for rm movie_a movie_b then mat_inc m' i j else m') rank_maps m"

definition row_loop :: "rank_map list \<Rightarrow> int list \<Rightarrow> nat \<Rightarrow> int \<Rightarrow> matrix \<Rightarrow> matrix" where
  "row_loop rank_maps movie_ids i movie_a m =
     fold (\<lambda>(j, movie_b) m'. if i = j then m' else cell_loop rank_maps movie_a movie_b i j m')
       (enumerate 0 movie_ids) m"

definition build_matrix :: "rank_map list \<Rightarrow> int list \<Rightarrow> matrix" where
  "build_matrix rank_maps movie_ids =
     fold (\<lambda>(i, movie_a) m. row_loop rank_maps movie_ids i movie_a m)
       (enumerate 0 movie_ids) (zeros (length movie_ids))"

text \<open>
  The dict \<open>user_rankings\<close>: an entry for every voter that has statements. Assigning to a
  key that is there already keeps its place.
\<close>

definition dict_set :: "'k \<Rightarrow> 'v \<Rightarrow> ('k \<times> 'v) list \<Rightarrow> ('k \<times> 'v) list" where
  "dict_set k v d =
     (if k \<in> fst ` set d then map (\<lambda>(k', v'). if k' = k then (k', v) else (k', v')) d
      else d @ [(k, v)])"

definition user_rankings_of ::
  "(int list \<Rightarrow> int list) \<Rightarrow> db \<Rightarrow> int set \<Rightarrow> string list \<Rightarrow> (string \<times> user_ranking) list" where
  "user_rankings_of so conn movie_ids_set voters =
     fold (\<lambda>user_id user_rankings.
             let prefs = user_preferences conn user_id in
             if prefs \<noteq> [] then
               (case compute_user_rankings so prefs movie_ids_set of
                  (rm, unranked) \<Rightarrow>
                    dict_set user_id \<lparr>rank_map = rm, unranked_set = unranked\<rparr> user_rankings)
             else user_rankings)
       voters []"

definition compute_condorcet_matrix ::
  "(int list \<Rightarrow> int list) \<Rightarrow> db \<Rightarrow> int list \<times> string list \<times> matrix" where
  "compute_condorcet_matrix so conn =
     (let movie_ids = map fst (unwatched_movies conn);
          movie_titles = map snd (unwatched_movies conn);
          voters = (if attendees conn = [] then all_voters conn else attendees conn);
          user_rankings = user_rankings_of so conn (set movie_ids) voters
      in (movie_ids, movie_titles,
          build_matrix (map (\<lambda>(user_id, ranking). rank_map ranking) user_rankings) movie_ids))"

text \<open>
  \<open>compute_vote_matrix\<close> of visualize_vote.py: the options of the vote, its voters and
  their statements are read from the database; \<open>user_rankings\<close> maps a voter to the rank
  map; the three loops are the loops above.
\<close>

record vote_db =
  vote_options :: "(int \<times> string) list"
  voters :: "string list"
  vote_preferences :: "string \<Rightarrow> pref list"

definition vote_user_rankings_of ::
  "(int list \<Rightarrow> int list) \<Rightarrow> vote_db \<Rightarrow> int set \<Rightarrow> (string \<times> rank_map) list" where
  "vote_user_rankings_of so conn option_ids_set =
     fold (\<lambda>uid user_rankings.
             let prefs = vote_preferences conn uid in
             if prefs \<noteq> [] then
               dict_set uid (vote_compute_user_rankings so prefs option_ids_set) user_rankings
             else user_rankings)
       (voters conn) []"

definition compute_vote_matrix ::
  "(int list \<Rightarrow> int list) \<Rightarrow> vote_db \<Rightarrow> int list \<times> string list \<times> matrix" where
  "compute_vote_matrix so conn =
     (let option_ids = map fst (vote_options conn);
          labels = map snd (vote_options conn);
          n = length option_ids
      in if voters conn = [] then (option_ids, labels, zeros n)
         else (option_ids, labels,
               build_matrix (map snd (vote_user_rankings_of so conn (set option_ids))) option_ids))"

section \<open>Vocabulary for the properties of the matrix\<close>

text \<open>
  The contribution of one voter to \<open>matrix[i][j]\<close> as the specification words it: one
  when both candidates are ranked and the first has the smaller rank, one when the first is
  ranked and the second is not, zero in every other case.
\<close>

definition spec_contribution :: "rank_map \<Rightarrow> int \<Rightarrow> int \<Rightarrow> int" where
  "spec_contribution rm a b =
     (if a \<in> dom rm \<and> b \<in> dom rm \<and> the (rm a) < the (rm b) then 1
      else if a \<in> dom rm \<and> b \<notin> dom rm then 1
      else 0)"

text \<open>Sums and single-cell updates used to describe the three loops.\<close>

definition votes_count :: "rank_map list \<Rightarrow> int \<Rightarrow> int \<Rightarrow> int" where
  "votes_count rank_maps a b = (\<Sum>rm\<leftarrow>rank_maps. spec_contribution rm a b)"

definition add_cell :: "matrix \<Rightarrow> nat \<Rightarrow> nat \<Rightarrow> int \<Rightarrow> matrix" where
  "add_cell m i j c = m[i := (m ! i)[j := m ! i ! j + c]]"

text \<open>The inner loop over \<open>(j, movie_b)\<close>, for any list of indexed candidates.\<close>

definition row_step :: "rank_map list \<Rightarrow> nat \<Rightarrow> int \<Rightarrow> nat \<times> int \<Rightarrow> matrix \<Rightarrow> matrix" where
  "row_step rms i movie_a = (\<lambda>(j, movie_b) m'. if i = j then m' else cell_loop rms movie_a movie_b i j m')"

definition row_sum :: "rank_map list \<Rightarrow> int \<Rightarrow> (nat \<times> int) list \<Rightarrow> nat \<Rightarrow> int" where
  "row_sum rms movie_a jbs b = (\<Sum>(j, movie_b)\<leftarrow>jbs. if j = b then votes_count rms movie_a movie_b else 0)"

definition col_sum :: "rank_map list \<Rightarrow> int list \<Rightarrow> (nat \<times> int) list \<Rightarrow> nat \<Rightarrow> nat \<Rightarrow> int" where
  "col_sum rms ids ias a b = (\<Sum>(i, movie_a)\<leftarrow>ias. if i = a then votes_count rms movie_a (ids ! b) else 0)"

section \<open>Vocabulary for the properties of the per-voter ranking\<close>

text \<open>The directed edge a statement asks for: winner first. None for a tie or a statement outside the target set.\<close>

definition edge_of :: "int set \<Rightarrow> pref \<Rightarrow> (int \<times> int) option" where
  "edge_of movie_ids_set p =
     (case p of (movie_a, movie_b, pref) \<Rightarrow>
        if movie_a \<notin> movie_ids_set \<or> movie_b \<notin> movie_ids_set then None
        else if pref > 0 then Some (movie_a, movie_b)
        else if pref < 0 then Some (movie_b, movie_a)
        else None)"

text \<open>The recorded winners over a candidate.\<close>

definition in_edges :: "int ddict \<Rightarrow> int \<Rightarrow> int set" where
  "in_edges graph x = {a. (a, x) \<in> dd_edges graph}"

text \<open>The nodes one traversal adds to the component, and the set \<open>visited\<close> after it.\<close>

definition dfs_new :: "int ddict \<Rightarrow> int list \<Rightarrow> int list \<Rightarrow> int list" where
  "dfs_new cg v s = snd (dfs_loop cg v [] s)"

definition dfs_vis :: "int ddict \<Rightarrow> int list \<Rightarrow> int list \<Rightarrow> int list" where
  "dfs_vis cg v s = fst (dfs_loop cg v [] s)"

text \<open>The stack after the unvisited neighbours of a fresh node are pushed.\<close>

definition dfs_push :: "int ddict \<Rightarrow> int list \<Rightarrow> int \<Rightarrow> int list \<Rightarrow> int list" where
  "dfs_push cg v node stack =
     rev (filter (\<lambda>neighbor. neighbor \<notin> set (set_add node v)) (dd_get cg node)) @ stack"

text \<open>
  The invariant of the loop over \<open>movies_to_rank\<close>: \<open>visited\<close> is the union of the
  components found, they are disjoint, no edge leaves \<open>visited\<close>, and every component is
  what its first node reaches.
\<close>

definition comps_inv :: "int ddict \<Rightarrow> int list \<times> int list list \<Rightarrow> bool" where
  "comps_inv cg st =
     (set (fst st) = set (concat (snd st))
      \<and> distinct (concat (snd st))
      \<and> (\<forall>a \<in> set (fst st). \<forall>b. (a, b) \<in> dd_edges cg \<longrightarrow> b \<in> set (fst st))
      \<and> (\<forall>c \<in> set (snd st). c \<noteq> [] \<and> set c = {y. (hd c, y) \<in> (dd_edges cg)\<^sup>*}))"

text \<open>The components and the main component of one voter, as the function computes them.\<close>

definition user_components :: "(int list \<Rightarrow> int list) \<Rightarrow> pref list \<Rightarrow> int set \<Rightarrow> int list list" where
  "user_components so prefs target =
     find_components
       (build_comparison_graph (set (movies_to_rank so prefs target)) prefs)
       (movies_to_rank so prefs target)"

definition main_component :: "(int list \<Rightarrow> int list) \<Rightarrow> pref list \<Rightarrow> int set \<Rightarrow> int list" where
  "main_component so prefs target = main_of (sort_components (user_components so prefs target))"

section \<open>Ranked Pairs: proofs\<close>

lemma ranking_emit_all:
  "ks_ranking (fold (emit_source locked) xs st) = ks_ranking st @ xs"
proof (induction xs arbitrary: st)
  case Nil
  show ?case by simp
next
  case (Cons x xs)
  have "ks_ranking (emit_source locked x st) = ks_ranking st @ [x]"
    by (simp add: emit_source_def)
  then show ?case using Cons.IH[of "emit_source locked x st"] by simp
qed

lemma sort_by_title_total:
  "list_all (\<lambda>i. i < length ts) xs \<Longrightarrow> sort_by_title ts xs = Some (sort_key (\<lambda>i. ts ! i) xs)"
  by (simp add: sort_by_title_def)

lemma kahn_loop_perm:
  "list_all (\<lambda>i. i < length ts) (ks_remaining st) \<Longrightarrow>
   \<exists>r. kahn_loop so ts locked st = Some r \<and> mset r = mset (ks_ranking st) + mset (ks_remaining st)"
proof (induction so ts locked st rule: kahn_loop.induct)
  case (1 so ts locked st)
  let ?it = "py_iter so (ks_remaining st)"
  have it_ok: "list_all (\<lambda>i. i < length ts) ?it"
    using 1(2) by (simp add: list_all_iff set_py_iter)
  show ?case
  proof (cases "ks_remaining st = []")
    case True
    then show ?thesis by (simp add: kahn_loop.simps[of so ts locked st])
  next
    case ne: False
    show ?thesis
    proof (cases "kahn_sources so st = []")
      case True
      then show ?thesis using ne sort_by_title_total[OF it_ok]
        by (simp add: kahn_loop.simps[of so ts locked st] mset_py_iter)
    next
      case False
      let ?src = "kahn_sources so st"
      let ?sorted = "sort_key (\<lambda>i. ts ! i) ?src"
      let ?st' = "fold (emit_source locked) ?sorted st"
      have src_ok: "list_all (\<lambda>i. i < length ts) ?src"
        using it_ok by (simp add: kahn_sources_def list_all_iff)
      have sbt: "sort_by_title ts ?src = Some ?sorted"
        by (rule sort_by_title_total[OF src_ok])
      have rem': "ks_remaining ?st' = filter (\<lambda>i. ks_in_degree st i \<noteq> 0) (ks_remaining st)"
        unfolding remaining_emit_all
        by (rule filter_cong) (auto simp: kahn_sources_def set_py_iter)
      have "list_all (\<lambda>i. i < length ts) (ks_remaining ?st')"
        using 1(2) by (simp add: rem' list_all_iff)
      from 1(1)[OF ne False sbt this]
      obtain r where r: "kahn_loop so ts locked ?st' = Some r"
        "mset r = mset (ks_ranking ?st') + mset (ks_remaining ?st')" by blast
      have "mset ?src = filter_mset (\<lambda>i. ks_in_degree st i = 0) (mset (ks_remaining st))"
        by (simp add: kahn_sources_def mset_py_iter)
      then have "mset (ks_ranking ?st') + mset (ks_remaining ?st') = mset (ks_ranking st) + mset (ks_remaining st)"
        by (simp add: ranking_emit_all rem')
      then show ?thesis using ne False sbt r
        by (simp add: kahn_loop.simps[of so ts locked st])
    qed
  qed
qed

lemma dd_edges_empty: "dd_edges [] = {}"
  by (simp add: dd_edges_def dd_get_def)

lemma map_of_dd_upd:
  "map_of (map (\<lambda>(k', s'). if k' = k then (k', f s') else (k', s')) d) k'
   = (if k' = k then map_option f (map_of d k) else map_of d k')"
  by (induction d) auto

lemma set_dd_get_dd_add:
  "set (dd_get (dd_add d k v) k') = (if k' = k then insert v (set (dd_get d k)) else set (dd_get d k'))"
proof (cases "map_of d k")
  case None
  then show ?thesis by (auto simp: dd_get_def dd_add_def map_add_def split: option.splits)
next
  case (Some s)
  then show ?thesis
    by (auto simp: dd_get_def dd_add_def map_of_dd_upd set_set_add split: option.splits)
qed

lemma dd_edges_dd_add: "dd_edges (dd_add d k v) = insert (k, v) (dd_edges d)"
  by (auto simp: dd_edges_def set_dd_get_dd_add split: if_splits)

lemma wcc_loop_sound:
  "wcc_loop locked w visited stack \<Longrightarrow> \<exists>s\<in>set stack. (s, w) \<in> (dd_edges locked)\<^sup>*"
proof (induction locked w visited stack rule: wcc_loop.induct)
  case (1 locked winner visited)
  then show ?case by simp
next
  case (2 locked winner visited current stack)
  show ?case
  proof (cases "current = winner")
    case True
    then show ?thesis by auto
  next
    case ne: False
    show ?thesis
    proof (cases "current \<in> set visited")
      case True
      with ne 2 show ?thesis by auto
    next
      case False
      with ne 2 obtain s where s: "s \<in> set (rev (dd_get locked current) @ stack)"
        "(s, winner) \<in> (dd_edges locked)\<^sup>*" by auto
      show ?thesis
      proof (cases "s \<in> set stack")
        case True
        with s show ?thesis by auto
      next
        case False
        with s have "(current, s) \<in> dd_edges locked" by (auto simp: dd_edges_def)
        with s(2) have "(current, winner) \<in> (dd_edges locked)\<^sup>*" by auto
        then show ?thesis by auto
      qed
    qed
  qed
qed

lemma closed_no_reach:
  assumes "(x, w) \<in> E\<^sup>*" "x \<in> V" "\<And>v u. v \<in> V \<Longrightarrow> (v, u) \<in> E \<Longrightarrow> u \<in> V"
  shows "w \<in> V"
  using assms by (induction rule: rtrancl_induct) auto

lemma wcc_loop_complete:
  assumes "\<not> wcc_loop locked w visited stack"
    and "w \<notin> set visited"
    and "\<And>v u. v \<in> set visited \<Longrightarrow> (v, u) \<in> dd_edges locked \<Longrightarrow> u \<in> set visited \<union> set stack"
  shows "\<forall>x \<in> set visited \<union> set stack. (x, w) \<notin> (dd_edges locked)\<^sup>*"
  using assms
proof (induction locked w visited stack rule: wcc_loop.induct)
  case (1 locked winner visited)
  show ?case
  proof
    fix x assume x: "x \<in> set visited \<union> set []"
    show "(x, winner) \<notin> (dd_edges locked)\<^sup>*"
    proof
      assume "(x, winner) \<in> (dd_edges locked)\<^sup>*"
      then have "winner \<in> set visited"
        using x 1(3) by (rule_tac closed_no_reach[where V="set visited"]) auto
      with 1(2) show False by simp
    qed
  qed
next
  case (2 locked winner visited current stack)
  from 2(3) have ne: "current \<noteq> winner" by (auto split: if_splits)
  show ?case
  proof (cases "current \<in> set visited")
    case True
    with ne 2(3) have "\<not> wcc_loop locked winner visited stack" by simp
    moreover have "\<And>v u. v \<in> set visited \<Longrightarrow> (v, u) \<in> dd_edges locked \<Longrightarrow> u \<in> set visited \<union> set stack"
      using 2(5) True by fastforce
    ultimately have "\<forall>x \<in> set visited \<union> set stack. (x, winner) \<notin> (dd_edges locked)\<^sup>*"
      using 2(1)[OF ne True] 2(4) by blast
    with True show ?thesis by auto
  next
    case False
    let ?v' = "set_add current visited"
    let ?s' = "rev (dd_get locked current) @ stack"
    from ne False 2(3) have "\<not> wcc_loop locked winner ?v' ?s'" by simp
    moreover have "winner \<notin> set ?v'" using ne 2(4) by (simp add: set_set_add)
    moreover have "\<And>v u. v \<in> set ?v' \<Longrightarrow> (v, u) \<in> dd_edges locked \<Longrightarrow> u \<in> set ?v' \<union> set ?s'"
    proof -
      fix v u assume vu: "v \<in> set ?v'" "(v, u) \<in> dd_edges locked"
      show "u \<in> set ?v' \<union> set ?s'"
      proof (cases "v = current")
        case True
        with vu(2) show ?thesis by (auto simp: dd_edges_def)
      next
        case False
        with vu(1) have "v \<in> set visited" by (simp add: set_set_add)
        from 2(5)[OF this vu(2)] show ?thesis by (auto simp: set_set_add)
      qed
    qed
    ultimately have "\<forall>x \<in> set ?v' \<union> set ?s'. (x, winner) \<notin> (dd_edges locked)\<^sup>*"
      using 2(2)[OF ne False] by blast
    then show ?thesis by (auto simp: set_set_add)
  qed
qed

lemma would_create_cycle_iff:
  "would_create_cycle locked winner loser \<longleftrightarrow> (loser, winner) \<in> (dd_edges locked)\<^sup>*"
proof
  assume "would_create_cycle locked winner loser"
  then show "(loser, winner) \<in> (dd_edges locked)\<^sup>*"
    unfolding would_create_cycle_def
    using wcc_loop_sound[of locked winner "[]" "[loser]"] by (simp del: wcc_loop.simps)
next
  assume r: "(loser, winner) \<in> (dd_edges locked)\<^sup>*"
  show "would_create_cycle locked winner loser"
  proof (rule ccontr)
    assume "\<not> would_create_cycle locked winner loser"
    then have "\<not> wcc_loop locked winner [] [loser]" by (simp add: would_create_cycle_def)
    from wcc_loop_complete[OF this] have "(loser, winner) \<notin> (dd_edges locked)\<^sup>*" by simp
    with r show False by simp
  qed
qed

lemma dd_edges_lock_step:
  "dd_edges (lock_step (w, l, mg, v) locked)
   = (if (l, w) \<in> (dd_edges locked)\<^sup>* then dd_edges locked else insert (w, l) (dd_edges locked))"
  by (simp add: lock_step_def would_create_cycle_iff dd_edges_dd_add)

lemma acyclic_lock_step:
  "acyclic (dd_edges locked) \<Longrightarrow> acyclic (dd_edges (lock_step p locked))"
  by (cases p) (simp add: dd_edges_lock_step acyclic_insert)

lemma acyclic_fold_lock_step:
  "acyclic (dd_edges locked) \<Longrightarrow> acyclic (dd_edges (fold lock_step ps locked))"
  by (induction ps arbitrary: locked) (simp_all add: acyclic_lock_step)

lemma acyclic_lock_pairs: "acyclic (dd_edges (lock_pairs ps))"
  unfolding lock_pairs_def by (rule acyclic_fold_lock_step) (simp add: dd_edges_empty acyclic_def)

lemma those_map_Some:
  "those (map f xs) = Some ys \<Longrightarrow> ys = map (\<lambda>x. the (f x)) xs \<and> (\<forall>x\<in>set xs. f x \<noteq> None)"
  by (induction xs arbitrary: ys) (auto split: option.splits)

lemma those_map_total:
  "(\<And>x. x \<in> set xs \<Longrightarrow> f x = Some (g x)) \<Longrightarrow> those (map f xs) = Some (map g xs)"
  by (induction xs) auto

lemma pair_at_Some:
  "pair_at m i j = Some rs \<Longrightarrow>
     mat_get m i j = Some (m ! i ! j) \<and> mat_get m j i = Some (m ! j ! i) \<and> rs = recs_at m i j"
  by (auto simp: pair_at_def mat_get_def recs_at_def split: option.splits if_splits)

lemma pair_at_None_iff:
  "pair_at m i j \<noteq> None \<longleftrightarrow> mat_get m i j \<noteq> None \<and> mat_get m j i \<noteq> None"
  by (auto simp: pair_at_def split: option.splits)

lemma set_index_pairs: "set (index_pairs n) = {(i, j). i < j \<and> j < n}"
  by (force simp: index_pairs_def)

lemma concat_map_of_concat:
  "concat (map f (concat xss)) = concat (map (\<lambda>xs. concat (map f xs)) xss)"
  by (induction xss) auto

lemma concat_index_pairs:
  "concat (map (\<lambda>(i, j). g i j) (index_pairs n))
   = concat (map (\<lambda>i. concat (map (\<lambda>j. g i j) [Suc i ..< n])) [0 ..< n])"
  by (simp add: index_pairs_def concat_map_of_concat comp_def)

lemma collect_pairs_Some:
  assumes "collect_pairs n m = Some ps"
  shows "ps = concat (map (\<lambda>(i, j). recs_at m i j) (index_pairs n))"
    and "i < j \<Longrightarrow> j < n \<Longrightarrow> mat_get m i j = Some (m ! i ! j) \<and> mat_get m j i = Some (m ! j ! i)"
proof -
  from assms obtain rss where rss: "those (map (\<lambda>(i, j). pair_at m i j) (index_pairs n)) = Some rss"
    and ps: "ps = concat rss"
    by (auto simp: collect_pairs_def)
  from those_map_Some[OF rss]
  have a: "rss = map (\<lambda>x. the ((\<lambda>(i, j). pair_at m i j) x)) (index_pairs n)"
    and b: "\<forall>x\<in>set (index_pairs n). (\<lambda>(i, j). pair_at m i j) x \<noteq> None" by auto
  have c: "\<And>i j. i < j \<Longrightarrow> j < n \<Longrightarrow> \<exists>rs. pair_at m i j = Some rs"
    using b by (auto simp: set_index_pairs)
  have "rss = map (\<lambda>(i, j). recs_at m i j) (index_pairs n)"
    unfolding a
  proof (rule map_cong[OF refl], clarify)
    fix i j assume "(i, j) \<in> set (index_pairs n)"
    then obtain rs where "pair_at m i j = Some rs" using c by (auto simp: set_index_pairs)
    then show "the (pair_at m i j) = recs_at m i j" using pair_at_Some by fastforce
  qed
  then show "ps = concat (map (\<lambda>(i, j). recs_at m i j) (index_pairs n))" using ps by simp
  show "i < j \<Longrightarrow> j < n \<Longrightarrow> mat_get m i j = Some (m ! i ! j) \<and> mat_get m j i = Some (m ! j ! i)"
    using c[of i j] pair_at_Some by blast
qed

lemma collect_pairs_total:
  assumes "square n m"
  shows "collect_pairs n m = Some (concat (map (\<lambda>(i, j). recs_at m i j) (index_pairs n)))"
proof -
  have g: "\<And>i j. i < n \<Longrightarrow> j < n \<Longrightarrow> mat_get m i j = Some (m ! i ! j)"
    using assms by (auto simp: square_def mat_get_def list_all_length)
  have "\<And>x. x \<in> set (index_pairs n) \<Longrightarrow> (\<lambda>(i, j). pair_at m i j) x = Some ((\<lambda>(i, j). recs_at m i j) x)"
    by (auto simp: set_index_pairs pair_at_def g recs_at_def)
  from those_map_total[of "index_pairs n" "\<lambda>(i, j). pair_at m i j" "\<lambda>(i, j). recs_at m i j", OF this]
  show ?thesis by (simp add: collect_pairs_def)
qed

lemma concat_map_single:
  "distinct xs \<Longrightarrow> x \<in> set xs \<Longrightarrow> (\<And>y. y \<in> set xs \<Longrightarrow> y \<noteq> x \<Longrightarrow> g y = []) \<Longrightarrow>
   concat (map g xs) = g x"
proof (induction xs)
  case Nil
  then show ?case by simp
next
  case (Cons a xs)
  show ?case
  proof (cases "a = x")
    case True
    with Cons.prems have "\<And>y. y \<in> set xs \<Longrightarrow> g y = []" by auto
    then have "concat (map g xs) = []" by (induction xs) auto
    with True show ?thesis by simp
  next
    case False
    with Cons show ?thesis by auto
  qed
qed

lemma filter_recs_at:
  "i < j \<Longrightarrow> i' < j' \<Longrightarrow> filter (about i j) (recs_at m i' j') = (if i' = i \<and> j' = j then recs_at m i j else [])"
  by (auto simp: recs_at_def about_def pair_winner_def pair_loser_def doubleton_eq_iff)

lemma filter_pairs_about:
  assumes "collect_pairs n m = Some ps" "i < j" "j < n"
  shows "filter (about i j) ps = recs_at m i j"
proof -
  have inner: "\<And>i'. i' < n \<Longrightarrow> concat (map (\<lambda>j'. filter (about i j) (recs_at m i' j')) [Suc i' ..< n])
      = (if i' = i then recs_at m i j else [])"
  proof -
    fix i' assume "i' < n"
    show "concat (map (\<lambda>j'. filter (about i j) (recs_at m i' j')) [Suc i' ..< n])
      = (if i' = i then recs_at m i j else [])"
    proof (cases "i' = i")
      case True
      have "concat (map (\<lambda>j'. filter (about i j) (recs_at m i j')) [Suc i ..< n])
          = filter (about i j) (recs_at m i j)"
        using assms by (intro concat_map_single) (auto simp: filter_recs_at)
      with True assms show ?thesis by (simp add: filter_recs_at)
    next
      case False
      have "\<And>j'. j' \<in> set [Suc i' ..< n] \<Longrightarrow> filter (about i j) (recs_at m i' j') = []"
        using False assms by (simp add: filter_recs_at)
      then have "concat (map (\<lambda>j'. filter (about i j) (recs_at m i' j')) [Suc i' ..< n]) = []"
        by simp
      with False show ?thesis by simp
    qed
  qed
  have "filter (about i j) ps
      = concat (map (\<lambda>i'. concat (map (\<lambda>j'. filter (about i j) (recs_at m i' j')) [Suc i' ..< n])) [0 ..< n])"
    unfolding collect_pairs_Some(1)[OF assms(1)] concat_index_pairs
    by (simp add: filter_concat comp_def)
  also have "\<dots> = concat (map (\<lambda>i'. if i' = i then recs_at m i j else []) [0 ..< n])"
    using inner by (intro arg_cong[where f=concat] map_cong) auto
  also have "\<dots> = (if i = i then recs_at m i j else [])"
    using assms by (intro concat_map_single) auto
  finally show ?thesis by simp
qed

lemma set_collect_pairs:
  assumes "collect_pairs n m = Some ps" "p \<in> set ps"
  shows "\<exists>i j. i < j \<and> j < n \<and> about i j p"
proof -
  from assms obtain i j where ij: "(i, j) \<in> set (index_pairs n)" "p \<in> set (recs_at m i j)"
    unfolding collect_pairs_Some(1)[OF assms(1)] by auto
  then have "about i j p"
    by (auto simp: recs_at_def about_def pair_winner_def pair_loser_def split: if_splits)
  with ij(1) show ?thesis by (auto simp: set_index_pairs)
qed

lemma wrap64_id: "- (2 ^ 63) \<le> x \<Longrightarrow> x < 2 ^ 63 \<Longrightarrow> wrap64 x = x"
proof -
  assume a: "- (2 ^ 63) \<le> x" "x < 2 ^ 63"
  have "0 \<le> x + 2 ^ 63" using a(1) by simp
  moreover have "x + 2 ^ 63 < 2 ^ 64" using a(2) by simp
  ultimately have "(x + 2 ^ 63) mod 2 ^ 64 = x + 2 ^ 63" by (rule mod_pos_pos_trivial)
  then show ?thesis by (simp add: wrap64_def)
qed

text \<open>
  Outside the range of vote counts the margin wraps as the 64-bit subtraction does: with
  \<open>2 ^ 63 - 1\<close> against \<open>- 2\<close> the record carries a negative margin.
\<close>

lemma pair_at_wraps:
  "pair_at [[0, 9223372036854775807], [- 2, 0]] 0 1
   = Some [(0, 1, - 9223372036854775807, 9223372036854775807)]"
  by (simp add: pair_at_def mat_get_def wrap64_def)

lemma vote_counts_nth:
  "vote_counts m \<Longrightarrow> a < length m \<Longrightarrow> b < length (m ! a) \<Longrightarrow> 0 \<le> m ! a ! b \<and> m ! a ! b < 2 ^ 63"
  by (simp add: vote_counts_def list_all_length)

lemma mat_get_SomeD: "mat_get m a b = Some v \<Longrightarrow> a < length m \<and> b < length (m ! a)"
  by (simp add: mat_get_def split: if_splits)

lemma recs_at_claim:
  assumes "0 \<le> m ! i ! j" "m ! i ! j < 2 ^ 63" "0 \<le> m ! j ! i" "m ! j ! i < 2 ^ 63"
  shows "recs_at m i j =
    (if m ! i ! j = m ! j ! i then []
     else [(if m ! i ! j > m ! j ! i then i else j, if m ! i ! j > m ! j ! i then j else i,
            \<bar>m ! i ! j - m ! j ! i\<bar>, max (m ! i ! j) (m ! j ! i))])"
proof -
  have "wrap64 (m ! i ! j - m ! j ! i) = m ! i ! j - m ! j ! i"
    using assms by (intro wrap64_id) simp_all
  moreover have "wrap64 (m ! j ! i - m ! i ! j) = m ! j ! i - m ! i ! j"
    using assms by (intro wrap64_id) simp_all
  ultimately show ?thesis by (auto simp: recs_at_def)
qed

text \<open>A record of a matrix of vote counts: its margin and its votes are positive 64-bit values.\<close>

lemma collect_pairs_range:
  assumes "collect_pairs n m = Some ps" "vote_counts m" "p \<in> set ps"
  shows "0 < pair_margin p \<and> pair_margin p < 2 ^ 63 \<and> 0 < pair_votes p \<and> pair_votes p < 2 ^ 63"
proof -
  from assms(1,3) obtain i j where ij: "(i, j) \<in> set (index_pairs n)" "p \<in> set (recs_at m i j)"
    unfolding collect_pairs_Some(1)[OF assms(1)] by auto
  then have "i < j" "j < n" by (auto simp: set_index_pairs)
  from collect_pairs_Some(2)[OF assms(1) this]
  have g: "mat_get m i j = Some (m ! i ! j)" "mat_get m j i = Some (m ! j ! i)" by auto
  have a: "0 \<le> m ! i ! j" "m ! i ! j < 2 ^ 63"
    using vote_counts_nth[OF assms(2)] mat_get_SomeD[OF g(1)] by auto
  have b: "0 \<le> m ! j ! i" "m ! j ! i < 2 ^ 63"
    using vote_counts_nth[OF assms(2)] mat_get_SomeD[OF g(2)] by auto
  from ij(2) show ?thesis
    unfolding recs_at_claim[OF a b]
    using a b by (auto simp: pair_margin_def pair_votes_def split: if_splits)
qed

lemma pair_key_in_range:
  assumes "0 < pair_margin p" "pair_margin p < 2 ^ 63" "0 < pair_votes p" "pair_votes p < 2 ^ 63"
  shows "pair_key p = (- pair_margin p, - pair_votes p)"
proof -
  have "wrap64 (- pair_margin p) = - pair_margin p"
    using assms by (intro wrap64_id) simp_all
  moreover have "wrap64 (- pair_votes p) = - pair_votes p"
    using assms by (intro wrap64_id) simp_all
  ultimately show ?thesis
    by (cases p) (simp add: pair_key_def pair_margin_def pair_votes_def)
qed

lemma sort_pairs_stable:
  assumes "\<forall>p \<in> set ps. pair_key p = (- pair_margin p, - pair_votes p)"
  shows "filter (\<lambda>p. pair_margin p = mg \<and> pair_votes p = v) (sort_pairs ps)
       = filter (\<lambda>p. pair_margin p = mg \<and> pair_votes p = v) ps"
proof -
  have a: "filter (\<lambda>p. pair_margin p = mg \<and> pair_votes p = v) (sort_pairs ps)
      = filter (\<lambda>p. pair_key p = (- mg, - v)) (sort_pairs ps)"
    using assms by (intro filter_cong) (auto simp: sort_pairs_def)
  have b: "filter (\<lambda>p. pair_margin p = mg \<and> pair_votes p = v) ps
      = filter (\<lambda>p. pair_key p = (- mg, - v)) ps"
    using assms by (intro filter_cong) auto
  have c: "filter (\<lambda>p. pair_key p = (- mg, - v)) (sort_pairs ps)
      = filter (\<lambda>p. pair_key p = (- mg, - v)) ps"
    unfolding sort_pairs_def by (rule sort_key_stable)
  show ?thesis unfolding a b by (rule c)
qed

lemma sort_pairs_descending:
  assumes "\<forall>p \<in> set ps. pair_key p = (- pair_margin p, - pair_votes p)"
    and "x < y" "y < length ps"
  shows "pair_margin (sort_pairs ps ! x) > pair_margin (sort_pairs ps ! y)
       \<or> (pair_margin (sort_pairs ps ! x) = pair_margin (sort_pairs ps ! y)
          \<and> pair_votes (sort_pairs ps ! x) \<ge> pair_votes (sort_pairs ps ! y))"
proof -
  have "sorted (map pair_key (sort_pairs ps))" by (simp add: sort_pairs_def)
  then have "map pair_key (sort_pairs ps) ! x \<le> map pair_key (sort_pairs ps) ! y"
    using assms(2,3) by (intro sorted_nth_mono) (auto simp: sort_pairs_def)
  then have le: "pair_key (sort_pairs ps ! x) \<le> pair_key (sort_pairs ps ! y)"
    using assms(2,3) by (simp add: sort_pairs_def)
  have "sort_pairs ps ! x \<in> set ps" "sort_pairs ps ! y \<in> set ps"
    using assms(2,3) by (metis length_sort nth_mem set_sort sort_pairs_def order.strict_trans)+
  then have "pair_key (sort_pairs ps ! x)
               = (- pair_margin (sort_pairs ps ! x), - pair_votes (sort_pairs ps ! x))"
    "pair_key (sort_pairs ps ! y)
               = (- pair_margin (sort_pairs ps ! y), - pair_votes (sort_pairs ps ! y))"
    using assms(1) by auto
  with le show ?thesis by auto
qed

text \<open>
  Claim C4. The matrix holds vote counts (every entry is in \<open>[0, 2 ^ 63)\<close>, where 64-bit
  subtraction does not wrap). When pair collection returns (no read of the matrix is out of
  range), for every unordered pair \<open>{i, j}\<close> with \<open>i < j < n\<close> the records about that pair
  are: none when \<open>matrix[i][j] = matrix[j][i]\<close>, and otherwise exactly one, whose winner is
  the side with the larger count, whose margin is the absolute difference and whose votes
  are the larger count. No other records exist. The sort permutes the records, orders them
  descending by margin and then descending by votes, and keeps the generation order of the
  records that agree on both keys.
\<close>

theorem pair_records_sorted:
  assumes "collect_pairs n m = Some ps" and "i < j" and "j < n" and "vote_counts m"
  shows "(\<exists>a b. mat_get m i j = Some a \<and> mat_get m j i = Some b \<and>
            filter (about i j) ps =
              (if a = b then []
               else [(if a > b then i else j, if a > b then j else i, \<bar>a - b\<bar>, max a b)]))
       \<and> (\<forall>p \<in> set ps. \<exists>i' j'. i' < j' \<and> j' < n \<and> about i' j' p)
       \<and> mset (sort_pairs ps) = mset ps
       \<and> (\<forall>x y. x < y \<and> y < length ps \<longrightarrow>
             pair_margin (sort_pairs ps ! x) > pair_margin (sort_pairs ps ! y)
           \<or> (pair_margin (sort_pairs ps ! x) = pair_margin (sort_pairs ps ! y)
              \<and> pair_votes (sort_pairs ps ! x) \<ge> pair_votes (sort_pairs ps ! y)))
       \<and> (\<forall>mg v. filter (\<lambda>p. pair_margin p = mg \<and> pair_votes p = v) (sort_pairs ps)
                 = filter (\<lambda>p. pair_margin p = mg \<and> pair_votes p = v) ps)"
proof (intro conjI)
  have g: "mat_get m i j = Some (m ! i ! j)" "mat_get m j i = Some (m ! j ! i)"
    using collect_pairs_Some(2)[OF assms(1-3)] by auto
  have a: "0 \<le> m ! i ! j" "m ! i ! j < 2 ^ 63"
    using vote_counts_nth[OF assms(4)] mat_get_SomeD[OF g(1)] by auto
  have b: "0 \<le> m ! j ! i" "m ! j ! i < 2 ^ 63"
    using vote_counts_nth[OF assms(4)] mat_get_SomeD[OF g(2)] by auto
  have keys: "\<forall>p \<in> set ps. pair_key p = (- pair_margin p, - pair_votes p)"
    using collect_pairs_range[OF assms(1,4)] pair_key_in_range by blast
  show "\<exists>a b. mat_get m i j = Some a \<and> mat_get m j i = Some b \<and>
            filter (about i j) ps =
              (if a = b then []
               else [(if a > b then i else j, if a > b then j else i, \<bar>a - b\<bar>, max a b)])"
    using g filter_pairs_about[OF assms(1-3)] recs_at_claim[OF a b] by simp
  show "\<forall>p \<in> set ps. \<exists>i' j'. i' < j' \<and> j' < n \<and> about i' j' p"
    using set_collect_pairs[OF assms(1)] by blast
  show "mset (sort_pairs ps) = mset ps" by (simp add: sort_pairs_def)
  show "\<forall>x y. x < y \<and> y < length ps \<longrightarrow>
             pair_margin (sort_pairs ps ! x) > pair_margin (sort_pairs ps ! y)
           \<or> (pair_margin (sort_pairs ps ! x) = pair_margin (sort_pairs ps ! y)
              \<and> pair_votes (sort_pairs ps ! x) \<ge> pair_votes (sort_pairs ps ! y))"
    using sort_pairs_descending[OF keys] by blast
  show "\<forall>mg v. filter (\<lambda>p. pair_margin p = mg \<and> pair_votes p = v) (sort_pairs ps)
                 = filter (\<lambda>p. pair_margin p = mg \<and> pair_votes p = v) ps"
    using sort_pairs_stable[OF keys] by blast
qed

lemma cp_ex: "collect_pairs 2 [[0, 3], [1, 0]] = Some [(0, 1, 2, 3)]"
  by (simp add: collect_pairs_def index_pairs_def pair_at_def mat_get_def upt_rec wrap64_def)

theorem pair_records_sorted_witness:
  "collect_pairs 2 [[0, 3], [1, 0]] = Some [(0, 1, 2, 3)] \<and> (0::nat) < 1 \<and> (1::nat) < 2
   \<and> vote_counts [[0, 3], [1, 0]]
   \<and> filter (about 0 1) [(0, 1, 2, 3)] = [(0, 1, 2, 3)]
   \<and> sort_pairs [(0, 1, 2, 3)] = [(0, 1, 2, 3)]"
proof -
  have h: "vote_counts [[0, 3], [1, 0]]" by (simp add: vote_counts_def)
  have lt: "(0::nat) < 1" "(1::nat) < 2" by simp_all
  note t = pair_records_sorted[OF cp_ex lt h]
  have "mat_get [[0, 3], [1, 0]] 0 1 = Some 3" "mat_get [[0, 3], [1, 0]] 1 0 = Some 1"
    by (simp_all add: mat_get_def)
  with t have "filter (about 0 1) [(0, 1, 2, 3)] = [(0, 1, 2, 3)]" by simp
  moreover have "sort_pairs [(0, 1, 2, 3)] = [(0, 1, 2, 3)]" by (simp add: sort_pairs_def)
  ultimately show ?thesis using cp_ex h by simp
qed

text \<open>
  Claim C1. For every candidate list, every title list of the same length and every
  \<open>n \<times> n\<close> matrix (the zero matrix and matrices that lock no edge included), and for
  every iteration order of the set \<open>remaining\<close>, \<open>compute_ranked_pairs\<close> returns, and the
  ranking it returns is a permutation of the candidate indices \<open>0 ..< n\<close>: it has length
  \<open>n\<close> and every index occurs exactly once.
\<close>

theorem ranking_is_permutation:
  assumes "square (length movie_ids) m" and "length movie_titles = length movie_ids"
  shows "\<exists>ranking locked.
           compute_ranked_pairs so movie_ids movie_titles m = Some (ranking, locked)
         \<and> mset ranking = mset [0 ..< length movie_ids]
         \<and> length ranking = length movie_ids
         \<and> distinct ranking
         \<and> set ranking = {0 ..< length movie_ids}"
proof -
  let ?n = "length movie_ids"
  obtain ps where ps: "collect_pairs ?n m = Some ps"
    using collect_pairs_total[OF assms(1)] by blast
  let ?locked = "lock_pairs (sort_pairs ps)"
  let ?st = "\<lparr>ks_ranking = [], ks_remaining = [0 ..< ?n], ks_in_degree = init_in_degree ?locked\<rparr>"
  have "list_all (\<lambda>i. i < length movie_titles) (ks_remaining ?st)"
    using assms(2) by (simp add: list_all_iff)
  from kahn_loop_perm[OF this, of so ?locked]
  obtain r where r: "kahn_loop so movie_titles ?locked ?st = Some r" "mset r = mset [0 ..< ?n]"
    by auto
  have "compute_ranked_pairs so movie_ids movie_titles m = Some (r, ?locked)"
    using ps r(1) by (simp add: compute_ranked_pairs_def)
  moreover have "length r = ?n" using r(2) by (metis length_upt mset_eq_length minus_nat.diff_0)
  moreover have "distinct r" using r(2) by (metis distinct_upt mset_eq_imp_distinct_iff)
  moreover have "set r = {0 ..< ?n}" using r(2) by (metis mset_eq_setD set_upt)
  ultimately show ?thesis using r(2) by blast
qed

theorem ranking_is_permutation_witness:
  "square (length [10, 20 :: int]) [[0, 0], [0, 0]] \<and> length [''B'', ''A''] = length [10, 20 :: int]
   \<and> (\<exists>ranking locked.
         compute_ranked_pairs id [10, 20] [''B'', ''A''] [[0, 0], [0, 0]] = Some (ranking, locked)
       \<and> set ranking = {0 ..< length [10, 20 :: int]})"
proof -
  have h1: "square (length [10, 20 :: int]) [[0, 0], [0, 0]]" by (simp add: square_def)
  have h2: "length [''B'', ''A''] = length [10, 20 :: int]" by simp
  from ranking_is_permutation[OF h1 h2, of id] h1 h2 show ?thesis by blast
qed

text \<open>
  Claim C2. After every locking step the locked graph is acyclic, for every list of pair
  records; one locking step adds the edge winner \<open>\<rightarrow>\<close> loser exactly when the winner is not
  reachable from the loser over the edges locked so far, and changes nothing otherwise; the
  graph returned by \<open>compute_ranked_pairs\<close> is acyclic.
\<close>

theorem locked_graph_acyclic:
  "(\<forall>k. acyclic (dd_edges (lock_pairs (take k ps))))
   \<and> dd_edges (lock_step (w, l, mg, v) locked)
       = (if (l, w) \<in> (dd_edges locked)\<^sup>* then dd_edges locked
          else insert (w, l) (dd_edges locked))
   \<and> (compute_ranked_pairs so movie_ids movie_titles m = Some (r, lk) \<longrightarrow> acyclic (dd_edges lk))"
proof (intro conjI)
  show "\<forall>k. acyclic (dd_edges (lock_pairs (take k ps)))" by (simp add: acyclic_lock_pairs)
  show "dd_edges (lock_step (w, l, mg, v) locked)
       = (if (l, w) \<in> (dd_edges locked)\<^sup>* then dd_edges locked
          else insert (w, l) (dd_edges locked))" by (rule dd_edges_lock_step)
  show "compute_ranked_pairs so movie_ids movie_titles m = Some (r, lk) \<longrightarrow> acyclic (dd_edges lk)"
    by (auto simp: compute_ranked_pairs_def Let_def acyclic_lock_pairs split: option.splits)
qed

lemma crp_ex:
  "compute_ranked_pairs id [10, 20, 30] [''b'', ''a'', ''c''] [[0, 1, 0], [0, 0, 1], [1, 0, 0]]
   = Some ([2, 0, 1], [(0, [1]), (2, [0])])"
  by (simp add: compute_ranked_pairs_def collect_pairs_def index_pairs_def pair_at_def mat_get_def upt_rec
     wrap64_def sort_pairs_def pair_key_def lock_pairs_def lock_step_def would_create_cycle_def dd_get_def dd_add_def set_add_def
     kahn_loop.simps kahn_sources_def py_iter_def init_in_degree_def sort_by_title_def emit_source_def)

theorem locked_graph_acyclic_witness:
  "compute_ranked_pairs id [10, 20, 30] [''b'', ''a'', ''c''] [[0, 1, 0], [0, 0, 1], [1, 0, 0]]
     = Some ([2, 0, 1], [(0, [1]), (2, [0])])
   \<and> acyclic (dd_edges [(0, [1]), (2, [0::nat])])"
  using locked_graph_acyclic[of "[]" 0 0 0 0 "[]" id "[10, 20, 30]" "[''b'', ''a'', ''c'']"
      "[[0, 1, 0], [0, 0, 1], [1, 0, 0]]" "[2, 0, 1]" "[(0, [1]), (2, [0])]"] crp_ex
  by blast

section \<open>The pairwise matrix: proofs\<close>

lemma vote_for_contribution: "vote_for rm a b \<longleftrightarrow> spec_contribution rm a b = 1"
  by (auto simp: vote_for_def spec_contribution_def dom_def split: option.splits)

lemma spec_contribution_01: "spec_contribution rm a b = (if vote_for rm a b then 1 else 0)"
  by (auto simp: vote_for_def spec_contribution_def dom_def split: option.splits)

lemma square_add_cell: "square n m \<Longrightarrow> square n (add_cell m i j c)"
  by (cases "i < length m") (auto simp: square_def add_cell_def list_all_length nth_list_update)

lemma nth_add_cell:
  "square n m \<Longrightarrow> i < n \<Longrightarrow> j < n \<Longrightarrow> a < n \<Longrightarrow> b < n \<Longrightarrow>
   add_cell m i j c ! a ! b = m ! a ! b + (if a = i \<and> b = j then c else 0)"
  by (auto simp: square_def add_cell_def list_all_length nth_list_update)

lemma add_cell_0: "add_cell m i j 0 = m"
  by (simp add: add_cell_def)

lemma add_cell_add:
  "i < length m \<Longrightarrow> j < length (m ! i) \<Longrightarrow> add_cell (add_cell m i j c) i j d = add_cell m i j (c + d)"
  by (simp add: add_cell_def add.assoc)

lemma cell_loop_add:
  "i < length m \<Longrightarrow> j < length (m ! i) \<Longrightarrow>
   cell_loop rms movie_a movie_b i j m = add_cell m i j (votes_count rms movie_a movie_b)"
proof (induction rms arbitrary: m)
  case Nil
  show ?case by (simp add: cell_loop_def votes_count_def add_cell_0)
next
  case (Cons rm rms)
  let ?m1 = "if vote_for rm movie_a movie_b then mat_inc m i j else m"
  have m1: "?m1 = add_cell m i j (spec_contribution rm movie_a movie_b)"
    by (simp add: spec_contribution_01 mat_inc_def add_cell_def)
  have len: "i < length ?m1" "j < length (?m1 ! i)"
    using Cons.prems by (auto simp: mat_inc_def)
  have "cell_loop (rm # rms) movie_a movie_b i j m = cell_loop rms movie_a movie_b i j ?m1"
    by (simp add: cell_loop_def)
  also have "\<dots> = add_cell ?m1 i j (votes_count rms movie_a movie_b)"
    using Cons.IH[OF len] .
  also have "\<dots> = add_cell m i j (votes_count (rm # rms) movie_a movie_b)"
    unfolding m1 using Cons.prems by (simp add: add_cell_add votes_count_def)
  finally show ?case .
qed

lemma row_fold:
  assumes "square n m" "i < n" "\<forall>(j, mb) \<in> set jbs. j < n"
  shows "square n (fold (row_step rms i movie_a) jbs m) \<and>
         (\<forall>a b. a < n \<longrightarrow> b < n \<longrightarrow>
            fold (row_step rms i movie_a) jbs m ! a ! b
            = m ! a ! b + (if a = i \<and> b \<noteq> i then row_sum rms movie_a jbs b else 0))"
  using assms
proof (induction jbs arbitrary: m)
  case Nil
  then show ?case by (simp add: row_sum_def)
next
  case (Cons jb jbs)
  obtain j mb where jb: "jb = (j, mb)" by (cases jb)
  let ?m1 = "row_step rms i movie_a jb m"
  have j: "j < n" using Cons.prems(3) jb by auto
  have ij: "i < length m" "j < length (m ! i)"
    using Cons.prems(1,2) j by (auto simp: square_def list_all_length)
  have m1: "?m1 = (if i = j then m else add_cell m i j (votes_count rms movie_a mb))"
    using cell_loop_add[OF ij] by (simp add: row_step_def jb)
  have sq1: "square n ?m1" using Cons.prems(1) by (simp add: m1 square_add_cell)
  have rest: "\<forall>(j, mb) \<in> set jbs. j < n" using Cons.prems(3) by auto
  from Cons.IH[OF sq1 Cons.prems(2) rest]
  have IH: "square n (fold (row_step rms i movie_a) jbs ?m1)"
    "\<And>a b. a < n \<Longrightarrow> b < n \<Longrightarrow>
       fold (row_step rms i movie_a) jbs ?m1 ! a ! b
       = ?m1 ! a ! b + (if a = i \<and> b \<noteq> i then row_sum rms movie_a jbs b else 0)"
    by auto
  have cell: "\<And>a b. a < n \<Longrightarrow> b < n \<Longrightarrow>
      ?m1 ! a ! b = m ! a ! b + (if a = i \<and> b = j \<and> i \<noteq> j then votes_count rms movie_a mb else 0)"
    using nth_add_cell[OF Cons.prems(1,2) j] by (auto simp: m1)
  show ?case
  proof (intro conjI allI impI)
    show "square n (fold (row_step rms i movie_a) (jb # jbs) m)" using IH(1) by simp
  next
    fix a b assume ab: "a < n" "b < n"
    have "fold (row_step rms i movie_a) (jb # jbs) m ! a ! b
        = ?m1 ! a ! b + (if a = i \<and> b \<noteq> i then row_sum rms movie_a jbs b else 0)"
      using IH(2)[OF ab] by simp
    also have "\<dots> = m ! a ! b + (if a = i \<and> b \<noteq> i then row_sum rms movie_a (jb # jbs) b else 0)"
      unfolding cell[OF ab] by (auto simp: row_sum_def jb)
    finally show "fold (row_step rms i movie_a) (jb # jbs) m ! a ! b
        = m ! a ! b + (if a = i \<and> b \<noteq> i then row_sum rms movie_a (jb # jbs) b else 0)" .
  qed
qed

lemma sum_enumerate_pick:
  "(\<Sum>(j, x)\<leftarrow>enumerate k xs. if j = b then f x else (0::int))
   = (if k \<le> b \<and> b < k + length xs then f (xs ! (b - k)) else 0)"
proof (induction xs arbitrary: k)
  case Nil
  show ?case by simp
next
  case (Cons x xs)
  show ?case using Cons.IH[of "Suc k"]
    by (auto simp: nth_Cons' Suc_diff_le)
qed

lemma enumerate_bound: "\<forall>(j, x) \<in> set (enumerate 0 xs). j < length xs"
  by (auto simp: in_set_enumerate_eq)

lemma row_loop_cells:
  assumes "square (length ids) m" "i < length ids"
  shows "square (length ids) (row_loop rms ids i movie_a m) \<and>
         (\<forall>a b. a < length ids \<longrightarrow> b < length ids \<longrightarrow>
            row_loop rms ids i movie_a m ! a ! b
            = m ! a ! b + (if a = i \<and> b \<noteq> i then votes_count rms movie_a (ids ! b) else 0))"
proof -
  have eq: "row_loop rms ids i movie_a m = fold (row_step rms i movie_a) (enumerate 0 ids) m"
    by (simp add: row_loop_def row_step_def)
  have rs: "\<And>b. b < length ids \<Longrightarrow> row_sum rms movie_a (enumerate 0 ids) b = votes_count rms movie_a (ids ! b)"
    using sum_enumerate_pick[of _ "\<lambda>x. votes_count rms movie_a x" 0 ids] by (simp add: row_sum_def)
  from row_fold[OF assms enumerate_bound, of rms movie_a] show ?thesis
    unfolding eq by (simp add: rs)
qed

lemma matrix_fold:
  assumes "square (length ids) m" "\<forall>(i, ma) \<in> set ias. i < length ids"
  shows "square (length ids) (fold (\<lambda>(i, movie_a) m. row_loop rms ids i movie_a m) ias m) \<and>
         (\<forall>a b. a < length ids \<longrightarrow> b < length ids \<longrightarrow>
            fold (\<lambda>(i, movie_a) m. row_loop rms ids i movie_a m) ias m ! a ! b
            = m ! a ! b + (if a \<noteq> b then col_sum rms ids ias a b else 0))"
  using assms
proof (induction ias arbitrary: m)
  case Nil
  then show ?case by (simp add: col_sum_def)
next
  case (Cons ia ias)
  obtain i ma where ia: "ia = (i, ma)" by (cases ia)
  let ?f = "\<lambda>(i, movie_a) m. row_loop rms ids i movie_a m"
  let ?m1 = "row_loop rms ids i ma m"
  have i: "i < length ids" using Cons.prems(2) ia by auto
  from row_loop_cells[OF Cons.prems(1) i, of rms ma]
  have sq1: "square (length ids) ?m1"
    and cell: "\<And>a b. a < length ids \<Longrightarrow> b < length ids \<Longrightarrow>
       ?m1 ! a ! b = m ! a ! b + (if a = i \<and> b \<noteq> i then votes_count rms ma (ids ! b) else 0)"
    by auto
  have rest: "\<forall>(i, ma) \<in> set ias. i < length ids" using Cons.prems(2) by auto
  from Cons.IH[OF sq1 rest]
  have IH: "square (length ids) (fold ?f ias ?m1)"
    "\<And>a b. a < length ids \<Longrightarrow> b < length ids \<Longrightarrow>
       fold ?f ias ?m1 ! a ! b = ?m1 ! a ! b + (if a \<noteq> b then col_sum rms ids ias a b else 0)"
    by auto
  show ?case
  proof (intro conjI allI impI)
    show "square (length ids) (fold ?f (ia # ias) m)" using IH(1) by (simp add: ia)
  next
    fix a b assume ab: "a < length ids" "b < length ids"
    have "fold ?f (ia # ias) m ! a ! b
        = ?m1 ! a ! b + (if a \<noteq> b then col_sum rms ids ias a b else 0)"
      using IH(2)[OF ab] by (simp add: ia)
    also have "\<dots> = m ! a ! b + (if a \<noteq> b then col_sum rms ids (ia # ias) a b else 0)"
      unfolding cell[OF ab] by (auto simp: col_sum_def ia)
    finally show "fold ?f (ia # ias) m ! a ! b
        = m ! a ! b + (if a \<noteq> b then col_sum rms ids (ia # ias) a b else 0)" .
  qed
qed

lemma square_zeros: "square n (zeros n)"
  by (simp add: square_def zeros_def list_all_iff)

lemma nth_zeros: "a < n \<Longrightarrow> b < n \<Longrightarrow> zeros n ! a ! b = 0"
  by (simp add: zeros_def)

lemma build_matrix_cells:
  "square (length ids) (build_matrix rms ids) \<and>
   (\<forall>a b. a < length ids \<longrightarrow> b < length ids \<longrightarrow>
      build_matrix rms ids ! a ! b
      = (if a \<noteq> b then votes_count rms (ids ! a) (ids ! b) else 0))"
proof -
  have cs: "\<And>a b. a < length ids \<Longrightarrow> col_sum rms ids (enumerate 0 ids) a b = votes_count rms (ids ! a) (ids ! b)"
    using sum_enumerate_pick[of _ "\<lambda>x. votes_count rms x (ids ! _)" 0 ids] by (simp add: col_sum_def)
  from matrix_fold[OF square_zeros enumerate_bound, of ids rms] show ?thesis
    unfolding build_matrix_def by (simp add: cs nth_zeros)
qed

lemma square_eqI:
  assumes "square n m" "square n m'" "\<And>a b. a < n \<Longrightarrow> b < n \<Longrightarrow> m ! a ! b = m' ! a ! b"
  shows "m = m'"
proof (rule nth_equalityI)
  show "length m = length m'" using assms by (simp add: square_def)
next
  fix a assume "a < length m"
  then have a: "a < n" using assms(1) by (simp add: square_def)
  have "length (m ! a) = n" "length (m' ! a) = n"
    using assms(1,2) a by (auto simp: square_def list_all_length)
  then show "m ! a = m' ! a" using assms(3)[OF a] by (intro nth_equalityI) auto
qed

lemma votes_count_empty_maps:
  "\<forall>rm \<in> set rms. rm = Map.empty \<Longrightarrow> votes_count rms a b = 0"
  by (induction rms) (auto simp: votes_count_def spec_contribution_def)

lemma build_matrix_zero:
  assumes "\<forall>rm \<in> set rms. rm = Map.empty"
  shows "build_matrix rms ids = zeros (length ids)"
proof (rule square_eqI[of "length ids"])
  show "square (length ids) (build_matrix rms ids)" using build_matrix_cells by blast
  show "square (length ids) (zeros (length ids))" by (rule square_zeros)
  fix a b assume "a < length ids" "b < length ids"
  then show "build_matrix rms ids ! a ! b = zeros (length ids) ! a ! b"
    using build_matrix_cells[of ids rms] votes_count_empty_maps[OF assms] by (simp add: nth_zeros)
qed

lemma build_matrix_entry:
  "i < length ids \<Longrightarrow> j < length ids \<Longrightarrow> i \<noteq> j \<Longrightarrow>
   build_matrix rms ids ! i ! j = (\<Sum>rm\<leftarrow>rms. spec_contribution rm (ids ! i) (ids ! j))"
  using build_matrix_cells[of ids rms] by (simp add: votes_count_def)

lemma vote_user_rankings_no_voters:
  "voters conn = [] \<Longrightarrow> vote_user_rankings_of so conn s = []"
  by (simp add: vote_user_rankings_of_def)

text \<open>
  Claim C3. For both matrix builders and every ordered pair of distinct candidate positions,
  the matrix entry is the sum over the voters in \<open>user_rankings\<close> of the voter's
  contribution, which is \<open>1\<close> when both candidates are in the voter's rank map and the
  first has the smaller rank, \<open>1\<close> when only the first is in the rank map, and \<open>0\<close> in
  every other case; nothing is weighted. The diagonal stays \<open>0\<close>.
\<close>

theorem matrix_counts_votes:
  assumes "i < length (unwatched_movies conn)" "j < length (unwatched_movies conn)" "i \<noteq> j"
    and "i' < length (vote_options vconn)" "j' < length (vote_options vconn)" "i' \<noteq> j'"
  shows "(case compute_condorcet_matrix so conn of (movie_ids, movie_titles, m) \<Rightarrow>
            m ! i ! j =
              (\<Sum>(user_id, ranking) \<leftarrow>
                  user_rankings_of so conn (set movie_ids)
                    (if attendees conn = [] then all_voters conn else attendees conn).
                 spec_contribution (rank_map ranking) (movie_ids ! i) (movie_ids ! j))
            \<and> m ! i ! i = 0)
       \<and> (case compute_vote_matrix so vconn of (option_ids, labels, m) \<Rightarrow>
            m ! i' ! j' =
              (\<Sum>(uid, rm) \<leftarrow> vote_user_rankings_of so vconn (set option_ids).
                 spec_contribution rm (option_ids ! i') (option_ids ! j'))
            \<and> m ! i' ! i' = 0)"
proof -
  let ?ids = "map fst (unwatched_movies conn)"
  let ?urs = "user_rankings_of so conn (set ?ids)
                (if attendees conn = [] then all_voters conn else attendees conn)"
  let ?rms = "map (\<lambda>(user_id, ranking). rank_map ranking) ?urs"
  have a: "build_matrix ?rms ?ids ! i ! j
      = (\<Sum>(user_id, ranking) \<leftarrow> ?urs. spec_contribution (rank_map ranking) (?ids ! i) (?ids ! j))"
    using build_matrix_entry[of i ?ids j ?rms] assms(1-3)
    by (simp add: comp_def case_prod_unfold)
  have a0: "build_matrix ?rms ?ids ! i ! i = 0"
    using build_matrix_cells[of ?ids ?rms] assms(1) by simp
  let ?oids = "map fst (vote_options vconn)"
  let ?vrs = "vote_user_rankings_of so vconn (set ?oids)"
  have b: "build_matrix (map snd ?vrs) ?oids ! i' ! j'
      = (\<Sum>(uid, rm) \<leftarrow> ?vrs. spec_contribution rm (?oids ! i') (?oids ! j'))"
    using build_matrix_entry[of i' ?oids j' "map snd ?vrs"] assms(4-6)
    by (simp add: comp_def case_prod_unfold)
  have b0: "build_matrix (map snd ?vrs) ?oids ! i' ! i' = 0"
    using build_matrix_cells[of ?oids "map snd ?vrs"] assms(4) by simp
  have c: "voters vconn = [] \<Longrightarrow>
      zeros (length ?oids) ! i' ! j'
      = (\<Sum>(uid, rm) \<leftarrow> ?vrs. spec_contribution rm (?oids ! i') (?oids ! j'))
      \<and> zeros (length ?oids) ! i' ! i' = 0"
    using assms(4,5) by (simp add: vote_user_rankings_no_voters nth_zeros)
  show ?thesis
    using a a0 b b0 c
    by (simp add: compute_condorcet_matrix_def compute_vote_matrix_def Let_def)
qed

theorem matrix_counts_votes_witness:
  "(case compute_condorcet_matrix id
           \<lparr>unwatched_movies = [(1, ''A''), (2, ''B'')], attendees = [''u''], all_voters = [],
            user_preferences = (\<lambda>u. [(1, 2, 1)])\<rparr> of
      (movie_ids, movie_titles, m) \<Rightarrow>
        m ! 0 ! 1 =
          (\<Sum>(user_id, ranking) \<leftarrow>
              user_rankings_of id
                \<lparr>unwatched_movies = [(1, ''A''), (2, ''B'')], attendees = [''u''], all_voters = [],
                 user_preferences = (\<lambda>u. [(1, 2, 1)])\<rparr> (set movie_ids) [''u''].
             spec_contribution (rank_map ranking) (movie_ids ! 0) (movie_ids ! 1)))"
  using matrix_counts_votes[of 0
      "\<lparr>unwatched_movies = [(1, ''A''), (2, ''B'')], attendees = [''u''], all_voters = [],
        user_preferences = (\<lambda>u. [(1, 2, 1)])\<rparr>" 1 0
      "\<lparr>vote_options = [(1, ''A''), (2, ''B'')], voters = [], vote_preferences = (\<lambda>u. [])\<rparr>" 1 id]
  by (simp add: case_prod_unfold)

lemma recs_at_zeros: "i < n \<Longrightarrow> j < n \<Longrightarrow> recs_at (zeros n) i j = []"
  by (simp add: recs_at_def nth_zeros)

lemma collect_pairs_zeros: "collect_pairs n (zeros n) = Some []"
proof -
  have "\<And>x. x \<in> set (index_pairs n) \<Longrightarrow> (\<lambda>(i, j). recs_at (zeros n) i j) x = []"
    by (auto simp: set_index_pairs recs_at_zeros)
  then have "concat (map (\<lambda>(i, j). recs_at (zeros n) i j) (index_pairs n)) = []"
    by simp
  then show ?thesis using collect_pairs_total[OF square_zeros, of n] by simp
qed

lemma init_in_degree_empty: "init_in_degree [] = (\<lambda>i. 0)"
  by (simp add: init_in_degree_def)

lemma kahn_loop_no_edges:
  assumes "list_all (\<lambda>i. i < length ts) xs"
  shows "kahn_loop so ts [] \<lparr>ks_ranking = [], ks_remaining = xs, ks_in_degree = (\<lambda>i. 0)\<rparr>
         = Some (sort_key (\<lambda>i. ts ! i) (py_iter so xs))"
proof (cases "xs = []")
  case True
  then show ?thesis by (simp add: kahn_loop.simps py_iter_def)
next
  case False
  let ?st = "\<lparr>ks_ranking = [], ks_remaining = xs, ks_in_degree = (\<lambda>i. 0)\<rparr>"
  let ?sorted = "sort_key (\<lambda>i. ts ! i) (py_iter so xs)"
  have src: "kahn_sources so ?st = py_iter so xs" by (simp add: kahn_sources_def)
  have ne: "py_iter so xs \<noteq> []" using False mset_py_iter[of so xs] by (metis mset_zero_iff)
  have "list_all (\<lambda>i. i < length ts) (py_iter so xs)"
    using assms by (simp add: list_all_iff set_py_iter)
  then have sbt: "sort_by_title ts (py_iter so xs) = Some ?sorted"
    by (rule sort_by_title_total)
  let ?st' = "fold (emit_source []) ?sorted ?st"
  have "ks_remaining ?st' = []"
    by (simp add: remaining_emit_all set_py_iter)
  moreover have "ks_ranking ?st' = ?sorted" by (simp add: ranking_emit_all)
  ultimately have "kahn_loop so ts [] ?st' = Some ?sorted"
    by (simp add: kahn_loop.simps[of so ts "[]" ?st'])
  then show ?thesis using False src ne sbt
    by (simp add: kahn_loop.simps[of so ts "[]" ?st])
qed

lemma ranked_pairs_zeros:
  assumes "length movie_titles = length movie_ids"
  shows "compute_ranked_pairs so movie_ids movie_titles (zeros (length movie_ids))
         = Some (sort_key (\<lambda>i. movie_titles ! i) (py_iter so [0 ..< length movie_ids]), [])"
proof -
  have "list_all (\<lambda>i. i < length movie_titles) [0 ..< length movie_ids]"
    using assms by (simp add: list_all_iff)
  from kahn_loop_no_edges[OF this, of so] show ?thesis
    by (simp add: compute_ranked_pairs_def collect_pairs_zeros sort_pairs_def lock_pairs_def
        init_in_degree_empty)
qed

lemma user_rankings_none:
  "\<forall>u \<in> set vs. user_preferences conn u = [] \<Longrightarrow> user_rankings_of so conn s vs = []"
proof -
  assume a: "\<forall>u \<in> set vs. user_preferences conn u = []"
  have "\<And>acc. \<forall>u \<in> set vs. user_preferences conn u = [] \<Longrightarrow>
     fold (\<lambda>user_id user_rankings.
             let prefs = user_preferences conn user_id in
             if prefs \<noteq> [] then
               (case compute_user_rankings so prefs s of
                  (rm, unranked) \<Rightarrow>
                    dict_set user_id \<lparr>rank_map = rm, unranked_set = unranked\<rparr> user_rankings)
             else user_rankings) vs acc = acc"
    by (induction vs) auto
  with a show ?thesis unfolding user_rankings_of_def by blast
qed

text \<open>
  Claim C7. With no voter, or with voters whose rank maps are all empty, or with voters that
  have no statements, the matrix is all zeros. On the zero matrix no pair record is
  generated, nothing is locked, and the ranking is the candidate indices sorted ascending by
  title (stably, from the iteration order of the set \<open>remaining\<close>): a permutation of all
  indices whose titles are in ascending order.
\<close>

theorem zero_voters_alphabetical:
  assumes "length movie_titles = length movie_ids"
  shows "build_matrix [] movie_ids = zeros (length movie_ids)
       \<and> ((\<forall>rm \<in> set rank_maps. rm = Map.empty) \<longrightarrow>
            build_matrix rank_maps movie_ids = zeros (length movie_ids))
       \<and> ((\<forall>u \<in> set (if attendees conn = [] then all_voters conn else attendees conn).
              user_preferences conn u = []) \<longrightarrow>
            compute_condorcet_matrix so' conn
            = (map fst (unwatched_movies conn), map snd (unwatched_movies conn),
               zeros (length (unwatched_movies conn))))
       \<and> collect_pairs (length movie_ids) (zeros (length movie_ids)) = Some []
       \<and> (\<exists>ranking.
            compute_ranked_pairs so movie_ids movie_titles (zeros (length movie_ids))
              = Some (ranking, [])
          \<and> ranking = sort_key (\<lambda>i. movie_titles ! i) (py_iter so [0 ..< length movie_ids])
          \<and> mset ranking = mset [0 ..< length movie_ids]
          \<and> sorted (map (\<lambda>i. movie_titles ! i) ranking))"
proof (intro conjI impI)
  show "build_matrix [] movie_ids = zeros (length movie_ids)"
    by (rule build_matrix_zero) simp
  show "build_matrix rank_maps movie_ids = zeros (length movie_ids)"
    if "\<forall>rm \<in> set rank_maps. rm = Map.empty"
    using that by (rule build_matrix_zero)
  show "compute_condorcet_matrix so' conn
            = (map fst (unwatched_movies conn), map snd (unwatched_movies conn),
               zeros (length (unwatched_movies conn)))"
    if "\<forall>u \<in> set (if attendees conn = [] then all_voters conn else attendees conn).
              user_preferences conn u = []"
    using user_rankings_none[OF that, of so' "set (map fst (unwatched_movies conn))"]
      build_matrix_zero[of "[]" "map fst (unwatched_movies conn)"]
    by (simp add: compute_condorcet_matrix_def Let_def)
  show "collect_pairs (length movie_ids) (zeros (length movie_ids)) = Some []"
    by (rule collect_pairs_zeros)
  show "\<exists>ranking.
            compute_ranked_pairs so movie_ids movie_titles (zeros (length movie_ids))
              = Some (ranking, [])
          \<and> ranking = sort_key (\<lambda>i. movie_titles ! i) (py_iter so [0 ..< length movie_ids])
          \<and> mset ranking = mset [0 ..< length movie_ids]
          \<and> sorted (map (\<lambda>i. movie_titles ! i) ranking)"
    using ranked_pairs_zeros[OF assms, of so] by (simp add: mset_py_iter)
qed

theorem zero_voters_alphabetical_witness:
  "length [''B'', ''A''] = length [10, 20 :: int]
   \<and> build_matrix [Map.empty] [10, 20] = zeros (length [10, 20 :: int])
   \<and> compute_condorcet_matrix id
         \<lparr>unwatched_movies = [(10, ''B''), (20, ''A'')], attendees = [], all_voters = [],
          user_preferences = (\<lambda>u. [])\<rparr>
       = ([10, 20], [''B'', ''A''], zeros (length [10, 20 :: int]))
   \<and> compute_ranked_pairs id [10, 20] [''B'', ''A''] (zeros (length [10, 20 :: int]))
       = Some ([1, 0], [])"
proof -
  have h: "length [''B'', ''A''] = length [10, 20 :: int]" by simp
  have "sort_key (\<lambda>i. [''B'', ''A''] ! i) (py_iter id [0 ..< length [10, 20 :: int]]) = [1, 0]"
    by (simp add: py_iter_def upt_rec)
  with zero_voters_alphabetical[OF h, of "[Map.empty]"
      "\<lparr>unwatched_movies = [(10, ''B''), (20, ''A'')], attendees = [], all_voters = [],
        user_preferences = (\<lambda>u. [])\<rparr>" id id] h
  show ?thesis by simp
qed

section \<open>Per-voter rankings: proofs\<close>

lemma graph_step_cases:
  "graph_step S p (g, d) =
     (case edge_of S p of
        None \<Rightarrow> (g, d)
      | Some (w, l) \<Rightarrow> if (w, l) \<in> dd_edges g then (g, d) else (dd_add g w l, d(l := d l + 1)))"
  by (cases p) (auto simp: graph_step_def edge_of_def dd_edges_def)

lemma graph_step_duplicate:
  "edge_of S p = Some e \<Longrightarrow> e \<in> dd_edges (fst st) \<Longrightarrow> graph_step S p st = st"
  by (cases st; cases e) (simp add: graph_step_cases)

lemma graph_step_no_edge: "edge_of S p = None \<Longrightarrow> graph_step S p st = st"
  by (cases st) (simp add: graph_step_cases)

lemma dd_edges_graph_step:
  "dd_edges (fst (graph_step S p st)) = dd_edges (fst st) \<union> set_option (edge_of S p)"
  by (cases st) (auto simp: graph_step_cases dd_edges_dd_add split: option.splits)

lemma dd_edges_fold_graph_step:
  "dd_edges (fst (fold (graph_step S) prefs st))
   = dd_edges (fst st) \<union> {e. \<exists>p \<in> set prefs. edge_of S p = Some e}"
proof (induction prefs arbitrary: st)
  case Nil
  show ?case by simp
next
  case (Cons p prefs)
  show ?case using Cons.IH[of "graph_step S p st"]
    by (auto simp: dd_edges_graph_step)
qed

lemma dd_edges_build_graph:
  "dd_edges (fst (build_graph S prefs)) = {e. \<exists>p \<in> set prefs. edge_of S p = Some e}"
  by (simp add: build_graph_def dd_edges_fold_graph_step dd_edges_empty)

lemma finite_in_edges: "finite (in_edges g x)"
proof -
  have "in_edges g x \<subseteq> fst ` set g"
  proof
    fix a assume "a \<in> in_edges g x"
    then have "map_of g a \<noteq> None"
      by (cases "map_of g a") (auto simp: in_edges_def dd_edges_def dd_get_def)
    then show "a \<in> fst ` set g" by (simp add: map_of_eq_None_iff)
  qed
  then show ?thesis by (rule finite_subset) simp
qed

lemma in_edges_dd_add:
  "in_edges (dd_add g w l) x = (if x = l then insert w (in_edges g x) else in_edges g x)"
  by (auto simp: in_edges_def dd_edges_dd_add)

lemma in_degree_graph_step:
  assumes "\<forall>x. d x = int (card (in_edges g x))"
  shows "\<forall>x. snd (graph_step S p (g, d)) x = int (card (in_edges (fst (graph_step S p (g, d))) x))"
proof (cases "edge_of S p")
  case None
  then show ?thesis using assms by (simp add: graph_step_cases)
next
  case (Some e)
  obtain w l where e: "e = (w, l)" by (cases e)
  show ?thesis
  proof (cases "(w, l) \<in> dd_edges g")
    case True
    then show ?thesis using assms Some e by (simp add: graph_step_cases)
  next
    case False
    then have "w \<notin> in_edges g l" by (simp add: in_edges_def)
    then have "card (insert w (in_edges g l)) = Suc (card (in_edges g l))"
      by (simp add: finite_in_edges)
    then show ?thesis using assms Some e False
      by (simp add: graph_step_cases in_edges_dd_add)
  qed
qed

lemma in_degree_fold_graph_step:
  assumes "\<forall>x. snd st x = int (card (in_edges (fst st) x))"
  shows "\<forall>x. snd (fold (graph_step S) prefs st) x
             = int (card (in_edges (fst (fold (graph_step S) prefs st)) x))"
  using assms
proof (induction prefs arbitrary: st)
  case Nil
  then show ?case by simp
next
  case (Cons p prefs)
  obtain g d where st: "st = (g, d)" by (cases st)
  have "\<forall>x. snd (graph_step S p st) x = int (card (in_edges (fst (graph_step S p st)) x))"
    using in_degree_graph_step[of d g S p] Cons.prems by (simp add: st)
  from Cons.IH[OF this] show ?case by simp
qed

lemma in_degree_build_graph:
  "snd (build_graph S prefs) x = int (card (in_edges (fst (build_graph S prefs)) x))"
proof -
  have "\<forall>x. snd (([], \<lambda>mid. 0) :: int ddict \<times> (int \<Rightarrow> int)) x
             = int (card (in_edges (fst (([], \<lambda>mid. 0) :: int ddict \<times> (int \<Rightarrow> int))) x))"
    by (simp add: in_edges_def dd_edges_empty)
  from in_degree_fold_graph_step[OF this, of S prefs] show ?thesis
    by (simp add: build_graph_def)
qed

text \<open>
  Claim C8, amended. The graph is deduplicated by directed edge. A statement that asks for
  the same directed edge as an earlier statement of the list (or, like it, for none) changes
  neither the graph nor any in-degree; the recorded edges are exactly the directed edges the
  statements ask for, and the in-degree of a candidate is the number of distinct recorded
  edges into it, so no edge is counted twice.
\<close>

theorem later_same_edge_ignored:
  "(\<forall>q \<in> set prefs. edge_of S q = edge_of S p \<longrightarrow>
       graph_step S p (build_graph S prefs) = build_graph S prefs)
   \<and> dd_edges (fst (build_graph S prefs)) = {e. \<exists>q \<in> set prefs. edge_of S q = Some e}
   \<and> (\<forall>x. snd (build_graph S prefs) x
           = int (card {a. (a, x) \<in> dd_edges (fst (build_graph S prefs))}))"
proof (intro conjI ballI impI allI)
  fix q assume q: "q \<in> set prefs" "edge_of S q = edge_of S p"
  show "graph_step S p (build_graph S prefs) = build_graph S prefs"
  proof (cases "edge_of S p")
    case None
    then show ?thesis by (rule graph_step_no_edge)
  next
    case (Some e)
    with q have "e \<in> dd_edges (fst (build_graph S prefs))"
      by (auto simp: dd_edges_build_graph)
    with Some show ?thesis by (rule graph_step_duplicate)
  qed
next
  show "dd_edges (fst (build_graph S prefs)) = {e. \<exists>q \<in> set prefs. edge_of S q = Some e}"
    by (rule dd_edges_build_graph)
next
  fix x
  show "snd (build_graph S prefs) x = int (card {a. (a, x) \<in> dd_edges (fst (build_graph S prefs))})"
    using in_degree_build_graph[of S prefs x] by (simp add: in_edges_def)
qed

text \<open>The statement \<open>(2, 1, -3)\<close> after \<open>(1, 2, 1)\<close> asks for the edge \<open>1 \<rightarrow> 2\<close> again.\<close>

theorem later_same_edge_ignored_witness:
  "edge_of {1, 2} (1, 2, 1) = edge_of {1, 2} (2, 1, - 3)
   \<and> graph_step {1, 2} (2, 1, - 3) (build_graph {1, 2} [(1, 2, 1)]) = build_graph {1, 2} [(1, 2, 1)]"
  using later_same_edge_ignored[of "[(1, 2, 1)]" "{1, 2}" "(2, 1, - 3)"]
  by (simp add: edge_of_def)

text \<open>
  Claim C8 as stated fails: after \<open>(1, 2, 1)\<close> the later statement \<open>(1, 2, -1)\<close> on the
  same pair, in the other direction, adds the edge \<open>2 \<rightarrow> 1\<close> and raises the in-degree of
  candidate \<open>1\<close> from \<open>0\<close> to \<open>1\<close>.
\<close>

theorem opposite_duplicate_adds_edge:
  "fst (build_graph {1, 2} [(1, 2, 1)]) = [(1, [2])]
   \<and> snd (build_graph {1, 2} [(1, 2, 1)]) 1 = 0
   \<and> fst (graph_step {1, 2} (1, 2, - 1) (build_graph {1, 2} [(1, 2, 1)])) = [(1, [2]), (2, [1])]
   \<and> snd (graph_step {1, 2} (1, 2, - 1) (build_graph {1, 2} [(1, 2, 1)])) 1 = 1"
  by (simp add: build_graph_def graph_step_def dd_get_def dd_add_def)

lemma vote_rank_loop_eq:
  "vote_rank_loop graph st r = fst (rank_loop graph st r unranked_ids)"
proof (induction graph st r unranked_ids rule: rank_loop.induct)
  case (1 graph st current_rank unranked_ids)
  show ?case
  proof (cases "rs_remaining st = [] \<or> rank_sources st = []")
    case True
    then show ?thesis
      by (auto simp: rank_loop.simps[of graph st] vote_rank_loop.simps[of graph st])
  next
    case False
    then show ?thesis using 1
      by (simp add: rank_loop.simps[of graph st] vote_rank_loop.simps[of graph st])
  qed
qed

lemma vote_rank_options_eq: "vote_rank_options prefs to_rank = fst (rank_movies prefs to_rank)"
  by (simp add: vote_rank_options_def rank_movies_def Let_def vote_rank_loop_eq[where unranked_ids =
        "filter (\<lambda>mid. mid \<notin> set (main_of (sort_components
            (find_components (build_comparison_graph (set to_rank) prefs) to_rank)))) to_rank"]
      split: prod.splits)

text \<open>
  Claim C10. For every statement list and target set, and the same iteration order of the
  set of compared ids, the rank map of visualize_vote.py is the rank map of
  visualize_condorcet.py: the same keys, and the same rank at every key.
\<close>

theorem implementations_agree:
  "vote_compute_user_rankings so prefs target = fst (compute_user_rankings so prefs target)
   \<and> dom (vote_compute_user_rankings so prefs target)
       = dom (fst (compute_user_rankings so prefs target))
   \<and> (\<forall>k. vote_compute_user_rankings so prefs target k
            = fst (compute_user_rankings so prefs target) k)"
  by (simp add: vote_compute_user_rankings_def compute_user_rankings_def vote_rank_options_eq)

lemma set_fold_compared:
  "set (fold (\<lambda>(movie_a, movie_b, pref) s. set_add movie_b (set_add movie_a s)) prefs acc)
   = set acc \<union> {x. \<exists>p \<in> set prefs. x = fst p \<or> x = fst (snd p)}"
proof (induction prefs arbitrary: acc)
  case Nil
  show ?case by simp
next
  case (Cons p prefs)
  obtain a b c where p: "p = (a, b, c)" by (cases p)
  show ?case using Cons.IH[of "set_add b (set_add a acc)"]
    by (auto simp: p set_set_add)
qed

lemma set_compared_movie_ids:
  "set (compared_movie_ids prefs) = {x. \<exists>p \<in> set prefs. x = fst p \<or> x = fst (snd p)}"
  by (simp add: compared_movie_ids_def set_fold_compared)

lemma set_movies_to_rank:
  "set (movies_to_rank so prefs T) = {x \<in> T. \<exists>p \<in> set prefs. x = fst p \<or> x = fst (snd p)}"
  by (auto simp: movies_to_rank_def set_py_iter set_compared_movie_ids)

lemma dd_nodes_dd_add: "dd_nodes (dd_add d k v) \<subseteq> insert v (dd_nodes d)"
proof (cases "map_of d k")
  case None
  then show ?thesis by (auto simp: dd_add_def dd_nodes_def)
next
  case (Some s)
  then show ?thesis
    by (auto simp: dd_add_def dd_nodes_def set_set_add split: if_splits)
qed

lemma dd_nodes_comparison_step:
  "dd_nodes cg \<subseteq> S \<Longrightarrow> dd_nodes (comparison_step S p cg) \<subseteq> S"
proof -
  assume a: "dd_nodes cg \<subseteq> S"
  obtain x y c where p: "p = (x, y, c)" by (cases p)
  show ?thesis
  proof (cases "x \<in> S \<and> y \<in> S")
    case True
    have "dd_nodes (dd_add (dd_add cg x y) y x) \<subseteq> insert x (insert y (dd_nodes cg))"
      using dd_nodes_dd_add[of "dd_add cg x y" y x] dd_nodes_dd_add[of cg x y] by auto
    with True a show ?thesis by (auto simp: comparison_step_def p)
  next
    case False
    with a show ?thesis by (auto simp: comparison_step_def p)
  qed
qed

lemma dd_nodes_fold_comparison:
  "dd_nodes cg \<subseteq> S \<Longrightarrow> dd_nodes (fold (comparison_step S) prefs cg) \<subseteq> S"
  by (induction prefs arbitrary: cg) (simp_all add: dd_nodes_comparison_step)

lemma dd_nodes_comparison_graph: "dd_nodes (build_comparison_graph S prefs) \<subseteq> S"
  unfolding build_comparison_graph_def
  by (rule dd_nodes_fold_comparison) (simp add: dd_nodes_def)

lemma dfs_loop_component_subset:
  "set (snd (dfs_loop cg visited component stack)) \<subseteq> set component \<union> set stack \<union> dd_nodes cg"
proof (induction cg visited component stack rule: dfs_loop.induct)
  case (1 cg visited component)
  show ?case by simp
next
  case (2 cg visited component node stack)
  show ?case
  proof (cases "node \<in> set visited")
    case True
    with 2(1) show ?thesis by auto
  next
    case False
    with 2(2) dd_get_nodes[of cg node] show ?thesis by auto
  qed
qed

lemma components_step_subset:
  assumes "\<forall>c \<in> set (snd st). set c \<subseteq> U" "mid \<in> U" "dd_nodes cg \<subseteq> U"
  shows "\<forall>c \<in> set (snd (components_step cg mid st)). set c \<subseteq> U"
proof -
  obtain visited comps where st: "st = (visited, comps)" by (cases st)
  have "set (snd (dfs cg visited mid)) \<subseteq> U"
    using dfs_loop_component_subset[of cg visited "[]" "[mid]"] assms(2,3)
    by (auto simp: dfs_def)
  then show ?thesis using assms(1)
    by (auto simp: components_step_def st split: prod.splits)
qed

lemma fold_components_subset:
  assumes "\<forall>c \<in> set (snd st). set c \<subseteq> U" "set xs \<subseteq> U" "dd_nodes cg \<subseteq> U"
  shows "\<forall>c \<in> set (snd (fold (components_step cg) xs st)). set c \<subseteq> U"
  using assms
proof (induction xs arbitrary: st)
  case Nil
  then show ?case by simp
next
  case (Cons x xs)
  have "\<forall>c \<in> set (snd (components_step cg x st)). set c \<subseteq> U"
    using components_step_subset[OF Cons.prems(1) _ Cons.prems(3), of x] Cons.prems(2) by simp
  from Cons.IH[OF this _ Cons.prems(3)] Cons.prems(2) show ?case by simp
qed

lemma find_components_subset:
  "dd_nodes cg \<subseteq> set to_rank \<Longrightarrow> c \<in> set (find_components cg to_rank) \<Longrightarrow> set c \<subseteq> set to_rank"
  using fold_components_subset[of "([], [])" "set to_rank" to_rank cg]
  by (simp add: find_components_def)

lemma main_of_sorted_in:
  "main_of (sort_components comps) = [] \<or> main_of (sort_components comps) \<in> set comps"
proof (cases "sort_components comps")
  case Nil
  then show ?thesis by (simp add: main_of_def)
next
  case (Cons c cs)
  then have "c \<in> set (sort_components comps)" by simp
  then have "c \<in> set comps" by (simp add: sort_components_def)
  with Cons show ?thesis by (simp add: main_of_def)
qed

lemma main_component_subset:
  "set (main_of (sort_components (find_components (build_comparison_graph (set to_rank) prefs) to_rank)))
   \<subseteq> set to_rank"
  using main_of_sorted_in[of "find_components (build_comparison_graph (set to_rank) prefs) to_rank"]
    find_components_subset[OF dd_nodes_comparison_graph[of "set to_rank" prefs]]
  by auto

lemma rs_rank_map_rank_all:
  "dom (rs_rank_map (fold (rank_source graph r) xs st)) = dom (rs_rank_map st) \<union> set xs"
proof (induction xs arbitrary: st)
  case Nil
  show ?case by simp
next
  case (Cons x xs)
  have "dom (rs_rank_map (rank_source graph r x st)) = insert x (dom (rs_rank_map st))"
    by (simp add: rank_source_def)
  then show ?case using Cons.IH[of "rank_source graph r x st"] by auto
qed

lemma set_rank_sources: "set (rank_sources st) \<subseteq> set (rs_remaining st)"
  by (auto simp: rank_sources_def)

lemma rank_loop_partition:
  assumes "rank_loop graph st r u = (rm, ur)"
    and "dom (rs_rank_map st) \<inter> set u = {}"
    and "set (rs_remaining st) \<inter> set u = {}"
    and "dom (rs_rank_map st) \<inter> set (rs_remaining st) = {}"
  shows "dom rm \<union> set ur = dom (rs_rank_map st) \<union> set (rs_remaining st) \<union> set u
       \<and> dom rm \<inter> set ur = {}"
  using assms
proof (induction graph st r u rule: rank_loop.induct)
  case (1 graph st current_rank unranked_ids)
  show ?case
  proof (cases "rs_remaining st = []")
    case True
    with 1(2) have "rm = rs_rank_map st" "ur = unranked_ids"
      by (simp_all add: rank_loop.simps[of graph st])
    with True 1(3-) show ?thesis by simp
  next
    case ne: False
    show ?thesis
    proof (cases "rank_sources st = []")
      case True
      with ne 1(2) have "rm = rs_rank_map st" "ur = unranked_ids @ rs_remaining st"
        by (simp_all add: rank_loop.simps[of graph st])
      with 1(3-) show ?thesis by (simp; blast)
    next
      case False
      let ?st' = "fold (rank_source graph current_rank) (rank_sources st) st"
      have run: "rank_loop graph ?st' (current_rank + 1) unranked_ids = (rm, ur)"
        using 1(2) ne False by (simp add: rank_loop.simps[of graph st])
      have d: "dom (rs_rank_map ?st') = dom (rs_rank_map st) \<union> set (rank_sources st)"
        by (rule rs_rank_map_rank_all)
      have r: "set (rs_remaining ?st') = set (rs_remaining st) - set (rank_sources st)"
        by (auto simp: rs_remaining_rank_all)
      have a: "dom (rs_rank_map ?st') \<inter> set unranked_ids = {}"
        using 1(3,4) set_rank_sources[of st] unfolding d by auto
      have b: "set (rs_remaining ?st') \<inter> set unranked_ids = {}"
        using 1(4) unfolding r by auto
      have c: "dom (rs_rank_map ?st') \<inter> set (rs_remaining ?st') = {}"
        using 1(5) unfolding d r by auto
      from 1(1)[OF ne False run a b c]
      show ?thesis using set_rank_sources[of st] unfolding d r by auto
    qed
  qed
qed

lemma rank_movies_partition:
  "dom (fst (rank_movies prefs to_rank)) \<inter> snd (rank_movies prefs to_rank) = {}
   \<and> dom (fst (rank_movies prefs to_rank)) \<union> snd (rank_movies prefs to_rank) = set to_rank"
proof -
  let ?graph = "fst (build_graph (set to_rank) prefs)"
  let ?main = "main_of (sort_components (find_components (build_comparison_graph (set to_rank) prefs) to_rank))"
  let ?u = "filter (\<lambda>mid. mid \<notin> set ?main) to_rank"
  let ?st = "\<lparr>rs_rank_map = Map.empty, rs_remaining = ?main,
              rs_in_degree = init_component_in_degree ?graph ?main\<rparr>"
  obtain rm ur where run: "rank_loop ?graph ?st 1 ?u = (rm, ur)" by (cases "rank_loop ?graph ?st 1 ?u")
  from rank_loop_partition[OF run]
  have "dom rm \<union> set ur = set ?main \<union> set ?u" "dom rm \<inter> set ur = {}" by auto
  moreover have "set ?main \<union> set ?u = set to_rank"
    using main_component_subset[of to_rank prefs] by auto
  moreover have "rank_movies prefs to_rank = (rm, set ur)"
    using run by (simp add: rank_movies_def Let_def)
  ultimately show ?thesis by simp
qed

text \<open>
  Claim C5. For every statement list and target set, the keys of the rank map and the
  unranked set are disjoint, and their union is the set of the candidates of the target set
  that occur in at least one statement.
\<close>

theorem ranked_and_unranked_partition:
  "dom (fst (compute_user_rankings so prefs target)) \<inter> snd (compute_user_rankings so prefs target) = {}
   \<and> dom (fst (compute_user_rankings so prefs target)) \<union> snd (compute_user_rankings so prefs target)
     = {x \<in> target. \<exists>p \<in> set prefs. x = fst p \<or> x = fst (snd p)}"
proof (cases "prefs = [] \<or> movies_to_rank so prefs target = []")
  case True
  then have "compute_user_rankings so prefs target = (Map.empty, {})"
    by (auto simp: compute_user_rankings_def)
  moreover have "{x \<in> target. \<exists>p \<in> set prefs. x = fst p \<or> x = fst (snd p)} = {}"
    using True set_movies_to_rank[of so prefs target] by auto
  ultimately show ?thesis by simp
next
  case False
  then have "compute_user_rankings so prefs target = rank_movies prefs (movies_to_rank so prefs target)"
    by (simp add: compute_user_rankings_def)
  then show ?thesis
    using rank_movies_partition[of prefs "movies_to_rank so prefs target"]
    by (simp add: set_movies_to_rank)
qed

lemmas rank_eval =
  rank_movies_def Let_def build_graph_def graph_step_def dd_get_def dd_add_def set_add_def
  build_comparison_graph_def comparison_step_def find_components_def components_step_def dfs_def
  sort_components_def main_of_def init_component_in_degree_def rank_loop.simps rank_sources_def
  rank_source_def

lemma perm3:
  assumes "mset p = mset [1, 2, 3 :: int]"
  shows "p \<in> {[1, 2, 3], [1, 3, 2], [2, 1, 3], [2, 3, 1], [3, 1, 2], [3, 2, 1]}"
proof -
  have "length p = length [1, 2, 3 :: int]" using assms by (rule mset_eq_length)
  then obtain x y z where p: "p = [x, y, z]"
    by (cases p; cases "tl p"; cases "tl (tl p)") auto
  have s: "set p = set [1, 2, 3 :: int]" using assms by (rule mset_eq_setD)
  have "distinct p = distinct [1, 2, 3 :: int]" using assms by (rule mset_eq_imp_distinct_iff)
  then have d: "distinct p" by simp
  have x: "x = 1 \<or> x = 2 \<or> x = 3" using s unfolding p by auto
  have y: "y = 1 \<or> y = 2 \<or> y = 3" using s unfolding p by auto
  have z: "z = 1 \<or> z = 2 \<or> z = 3" using s unfolding p by auto
  from x y z d show ?thesis unfolding p by auto
qed

lemma cyc123: "rank_movies [(1, 2, 1), (2, 3, 1), (3, 1, 1)] [1, 2, 3] = (Map.empty, {1, 2, 3})"
  by (simp add: rank_eval insert_commute)

lemma cyc132: "rank_movies [(1, 2, 1), (2, 3, 1), (3, 1, 1)] [1, 3, 2] = (Map.empty, {1, 2, 3})"
  by (simp add: rank_eval insert_commute)

lemma cyc213: "rank_movies [(1, 2, 1), (2, 3, 1), (3, 1, 1)] [2, 1, 3] = (Map.empty, {1, 2, 3})"
  by (simp add: rank_eval insert_commute)

lemma cyc231: "rank_movies [(1, 2, 1), (2, 3, 1), (3, 1, 1)] [2, 3, 1] = (Map.empty, {1, 2, 3})"
  by (simp add: rank_eval insert_commute)

lemma cyc312: "rank_movies [(1, 2, 1), (2, 3, 1), (3, 1, 1)] [3, 1, 2] = (Map.empty, {1, 2, 3})"
  by (simp add: rank_eval insert_commute)

lemma cyc321: "rank_movies [(1, 2, 1), (2, 3, 1), (3, 1, 1)] [3, 2, 1] = (Map.empty, {1, 2, 3})"
  by (simp add: rank_eval insert_commute)

lemma rank_loop_cycle:
  "rs_remaining st \<noteq> [] \<Longrightarrow> rank_sources st = [] \<Longrightarrow>
   rank_loop graph st r u = (rs_rank_map st, u @ rs_remaining st)"
  by (simp add: rank_loop.simps[of graph st])

lemma cycle_scenario:
  assumes "{1, 2, 3} \<subseteq> target"
  shows "compute_user_rankings so [(1, 2, 1), (2, 3, 1), (3, 1, 1)] target = (Map.empty, {1, 2, 3})"
proof -
  let ?prefs = "[(1, 2, 1), (2, 3, 1), (3, 1, 1)] :: pref list"
  let ?p = "py_iter so [1, 2, 3 :: int]"
  have c: "compared_movie_ids ?prefs = [1, 2, 3]"
    by (simp add: compared_movie_ids_def set_add_def)
  have "set ?p = {1, 2, 3}" by (simp add: set_py_iter)
  then have "filter (\<lambda>mid. mid \<in> target) ?p = ?p" using assms by (intro filter_True) auto
  then have m: "movies_to_rank so ?prefs target = ?p" by (simp add: movies_to_rank_def c)
  have "mset ?p = mset [1, 2, 3 :: int]" by (rule mset_py_iter)
  then have cases: "?p \<in> {[1, 2, 3], [1, 3, 2], [2, 1, 3], [2, 3, 1], [3, 1, 2], [3, 2, 1]}"
    by (rule perm3)
  then have ne: "?p \<noteq> []" by auto
  have "rank_movies ?prefs ?p = (Map.empty, {1, 2, 3})"
    using cases cyc123 cyc132 cyc213 cyc231 cyc312 cyc321 by auto
  then show ?thesis using ne by (simp add: compute_user_rankings_def m)
qed

text \<open>
  Claim C6. When candidates remain and none of them has in-degree zero, the loop returns the
  rank map as it is and all remaining candidates join the unranked ones. For the voter that
  states \<open>1 \<succ> 2\<close>, \<open>2 \<succ> 3\<close>, \<open>3 \<succ> 1\<close>, with the three candidates in the target set,
  the result is the empty rank map with \<open>{1, 2, 3}\<close> unranked, whatever the iteration order
  of the set, and the matrix built from this voter alone is all zeros.
\<close>

theorem cycle_makes_all_unranked:
  "(rs_remaining st \<noteq> [] \<and> rank_sources st = [] \<longrightarrow>
      rank_loop graph st r u = (rs_rank_map st, u @ rs_remaining st))
   \<and> ({1, 2, 3} \<subseteq> target \<longrightarrow>
        compute_user_rankings so [(1, 2, 1), (2, 3, 1), (3, 1, 1)] target = (Map.empty, {1, 2, 3})
      \<and> build_matrix [fst (compute_user_rankings so [(1, 2, 1), (2, 3, 1), (3, 1, 1)] target)]
           movie_ids = zeros (length movie_ids))"
proof (intro conjI impI)
  assume "rs_remaining st \<noteq> [] \<and> rank_sources st = []"
  then show "rank_loop graph st r u = (rs_rank_map st, u @ rs_remaining st)"
    by (simp add: rank_loop_cycle)
next
  assume t: "{1, 2, 3} \<subseteq> target"
  then show "compute_user_rankings so [(1, 2, 1), (2, 3, 1), (3, 1, 1)] target = (Map.empty, {1, 2, 3})"
    by (rule cycle_scenario)
  then show "build_matrix [fst (compute_user_rankings so [(1, 2, 1), (2, 3, 1), (3, 1, 1)] target)]
           movie_ids = zeros (length movie_ids)"
    by (simp add: build_matrix_zero)
qed

theorem cycle_makes_all_unranked_witness:
  "rank_loop [] \<lparr>rs_rank_map = Map.empty, rs_remaining = [7], rs_in_degree = (\<lambda>mid. 1)\<rparr> 1 [8]
     = (Map.empty, [8, 7])
   \<and> compute_user_rankings id [(1, 2, 1), (2, 3, 1), (3, 1, 1)] {1, 2, 3} = (Map.empty, {1, 2, 3})
   \<and> build_matrix [fst (compute_user_rankings id [(1, 2, 1), (2, 3, 1), (3, 1, 1)] {1, 2, 3})]
        [1, 2, 3] = zeros (length [1, 2, 3 :: int])"
proof -
  let ?st = "\<lparr>rs_rank_map = Map.empty, rs_remaining = [7], rs_in_degree = (\<lambda>mid. 1)\<rparr>"
  note t = cycle_makes_all_unranked[of ?st "[]" 1 "[8]" "{1, 2, 3}" id "[1, 2, 3]"]
  have h1: "rs_remaining ?st \<noteq> [] \<and> rank_sources ?st = []" by (simp add: rank_sources_def)
  have h2: "{1, 2, 3} \<subseteq> {1, 2, 3 :: int}" by simp
  from t h1 have a: "rank_loop [] ?st 1 [8] = (rs_rank_map ?st, [8] @ rs_remaining ?st)" by blast
  from t h2 have b:
    "compute_user_rankings id [(1, 2, 1), (2, 3, 1), (3, 1, 1)] {1, 2, 3} = (Map.empty, {1, 2, 3})
     \<and> build_matrix [fst (compute_user_rankings id [(1, 2, 1), (2, 3, 1), (3, 1, 1)] {1, 2, 3})]
          [1, 2, 3] = zeros (length [1, 2, 3 :: int])" by blast
  from a have a': "rank_loop [] ?st 1 [8] = (Map.empty, [8, 7])" by simp
  from a' b show ?thesis by blast
qed

lemma dfs_loop_component_app_aux:
  fixes c0 :: "int list"
  shows "\<forall>c. dfs_loop cg v c s = (fst (dfs_loop cg v [] s), c @ snd (dfs_loop cg v [] s))"
proof (induction cg v c0 s rule: dfs_loop.induct)
  case (1 cg v c0)
  show ?case by simp
next
  case (2 cg v c0 node stack)
  show ?case
  proof (cases "node \<in> set v")
    case True
    have IH: "\<And>c. dfs_loop cg v c stack = (fst (dfs_loop cg v [] stack), c @ snd (dfs_loop cg v [] stack))"
      using 2(1)[OF True] by blast
    have step: "\<And>c. dfs_loop cg v c (node # stack) = dfs_loop cg v c stack"
      using True by simp
    show ?thesis unfolding step by (intro allI IH)
  next
    case False
    let ?v' = "set_add node v"
    let ?s' = "rev (filter (\<lambda>neighbor. neighbor \<notin> set ?v') (dd_get cg node)) @ stack"
    have IH: "\<And>c. dfs_loop cg ?v' c ?s' = (fst (dfs_loop cg ?v' [] ?s'), c @ snd (dfs_loop cg ?v' [] ?s'))"
      using 2(2)[OF False] by blast
    show ?thesis
    proof
      fix c
      have "dfs_loop cg v c (node # stack) = dfs_loop cg ?v' (c @ [node]) ?s'"
        using False by simp
      also have "\<dots> = (fst (dfs_loop cg ?v' [] ?s'), (c @ [node]) @ snd (dfs_loop cg ?v' [] ?s'))"
        by (rule IH)
      finally have a: "dfs_loop cg v c (node # stack)
          = (fst (dfs_loop cg ?v' [] ?s'), c @ node # snd (dfs_loop cg ?v' [] ?s'))" by simp
      have "dfs_loop cg v [] (node # stack) = dfs_loop cg ?v' [node] ?s'"
        using False by simp
      also have "\<dots> = (fst (dfs_loop cg ?v' [] ?s'), [node] @ snd (dfs_loop cg ?v' [] ?s'))"
        by (rule IH)
      finally have b: "dfs_loop cg v [] (node # stack)
          = (fst (dfs_loop cg ?v' [] ?s'), node # snd (dfs_loop cg ?v' [] ?s'))" by simp
      show "dfs_loop cg v c (node # stack)
          = (fst (dfs_loop cg v [] (node # stack)), c @ snd (dfs_loop cg v [] (node # stack)))"
        unfolding a b by simp
    qed
  qed
qed

lemma dfs_loop_component_app:
  "dfs_loop cg v c s = (fst (dfs_loop cg v [] s), c @ snd (dfs_loop cg v [] s))"
  using dfs_loop_component_app_aux by blast

lemma dfs_new_Nil: "dfs_new cg v [] = []"
  by (simp add: dfs_new_def)

lemma dfs_vis_Nil: "dfs_vis cg v [] = v"
  by (simp add: dfs_vis_def)

lemma dfs_new_visited: "node \<in> set v \<Longrightarrow> dfs_new cg v (node # stack) = dfs_new cg v stack"
  by (simp add: dfs_new_def)

lemma dfs_vis_visited: "node \<in> set v \<Longrightarrow> dfs_vis cg v (node # stack) = dfs_vis cg v stack"
  by (simp add: dfs_vis_def)

lemma dfs_new_fresh:
  "node \<notin> set v \<Longrightarrow>
   dfs_new cg v (node # stack) = node # dfs_new cg (set_add node v) (dfs_push cg v node stack)"
proof -
  assume "node \<notin> set v"
  then have "dfs_loop cg v [] (node # stack)
      = dfs_loop cg (set_add node v) [node] (dfs_push cg v node stack)"
    by (simp add: dfs_push_def)
  then show ?thesis
    unfolding dfs_new_def
    using dfs_loop_component_app[of cg "set_add node v" "[node]" "dfs_push cg v node stack"]
    by simp
qed

lemma dfs_vis_fresh:
  "node \<notin> set v \<Longrightarrow>
   dfs_vis cg v (node # stack) = dfs_vis cg (set_add node v) (dfs_push cg v node stack)"
proof -
  assume "node \<notin> set v"
  then have "dfs_loop cg v [] (node # stack)
      = dfs_loop cg (set_add node v) [node] (dfs_push cg v node stack)"
    by (simp add: dfs_push_def)
  then show ?thesis
    unfolding dfs_vis_def
    using dfs_loop_component_app[of cg "set_add node v" "[node]" "dfs_push cg v node stack"]
    by simp
qed

lemma dfs_induct [case_names Nil visited fresh]:
  assumes "\<And>v. P v []"
    and "\<And>v node stack. node \<in> set v \<Longrightarrow> P v stack \<Longrightarrow> P v (node # stack)"
    and "\<And>v node stack. node \<notin> set v \<Longrightarrow> P (set_add node v) (dfs_push cg v node stack)
           \<Longrightarrow> P v (node # stack)"
  shows "P v s"
proof -
  have "g = cg \<Longrightarrow> P v s" for g and c0 :: "int list"
  proof (induction g v c0 s rule: dfs_loop.induct)
    case (1 g v c0)
    show ?case by (rule assms(1))
  next
    case (2 g v c0 node stack)
    show ?case
    proof (cases "node \<in> set v")
      case True
      from 2(1)[OF True 2(3)] have "P v stack" .
      with True show ?thesis by (rule assms(2))
    next
      case False
      from 2(2)[OF False 2(3)] have "P (set_add node v) (dfs_push cg v node stack)"
        unfolding dfs_push_def 2(3) .
      with False show ?thesis by (rule assms(3))
    qed
  qed
  then show ?thesis by simp
qed

lemma set_dfs_push: "set (dfs_push cg v node stack) = (set (dd_get cg node) - insert node (set v)) \<union> set stack"
  by (auto simp: dfs_push_def set_set_add)

lemma dfs_new_facts:
  "set (dfs_vis cg v s) = set v \<union> set (dfs_new cg v s)
   \<and> set (dfs_new cg v s) \<inter> set v = {}
   \<and> distinct (dfs_new cg v s)"
proof (induction v s rule: dfs_induct[where cg = cg])
  case (Nil v)
  show ?case by (simp add: dfs_new_Nil dfs_vis_Nil)
next
  case (visited v node stack)
  then show ?case by (simp add: dfs_new_visited dfs_vis_visited)
next
  case (fresh v node stack)
  then show ?case by (auto simp: dfs_new_fresh dfs_vis_fresh set_set_add)
qed

lemma dfs_new_reachable:
  "set (dfs_new cg v s) \<subseteq> {y. \<exists>x \<in> set s. (x, y) \<in> (dd_edges cg)\<^sup>*}"
proof (induction v s rule: dfs_induct[where cg = cg])
  case (Nil v)
  show ?case by (simp add: dfs_new_Nil)
next
  case (visited v node stack)
  then show ?case by (auto simp: dfs_new_visited)
next
  case (fresh v node stack)
  have "\<And>x y. x \<in> set (dfs_push cg v node stack) \<Longrightarrow> (x, y) \<in> (dd_edges cg)\<^sup>* \<Longrightarrow>
      \<exists>x' \<in> set (node # stack). (x', y) \<in> (dd_edges cg)\<^sup>*"
  proof -
    fix x y assume x: "x \<in> set (dfs_push cg v node stack)" and r: "(x, y) \<in> (dd_edges cg)\<^sup>*"
    show "\<exists>x' \<in> set (node # stack). (x', y) \<in> (dd_edges cg)\<^sup>*"
    proof (cases "x \<in> set stack")
      case True
      with r show ?thesis by auto
    next
      case False
      with x have "(node, x) \<in> dd_edges cg" by (auto simp: set_dfs_push dd_edges_def)
      with r have "(node, y) \<in> (dd_edges cg)\<^sup>*" by auto
      then show ?thesis by auto
    qed
  qed
  with fresh show ?case by (auto simp: dfs_new_fresh)
qed

lemma dfs_vis_closed:
  assumes "\<forall>a \<in> set v. \<forall>b. (a, b) \<in> dd_edges cg \<longrightarrow> b \<in> set v \<union> set s"
  shows "(\<forall>a \<in> set (dfs_vis cg v s). \<forall>b. (a, b) \<in> dd_edges cg \<longrightarrow> b \<in> set (dfs_vis cg v s))
       \<and> set s \<subseteq> set (dfs_vis cg v s)"
  using assms
proof (induction v s rule: dfs_induct[where cg = cg])
  case (Nil v)
  then show ?case by (simp add: dfs_vis_Nil)
next
  case (visited v node stack)
  have "\<forall>a \<in> set v. \<forall>b. (a, b) \<in> dd_edges cg \<longrightarrow> b \<in> set v \<union> set stack"
    using visited(1,3) by auto
  from visited(2)[OF this] have
    "\<forall>a \<in> set (dfs_vis cg v stack). \<forall>b. (a, b) \<in> dd_edges cg \<longrightarrow> b \<in> set (dfs_vis cg v stack)"
    "set stack \<subseteq> set (dfs_vis cg v stack)" by auto
  moreover have "node \<in> set (dfs_vis cg v stack)"
    using visited(1) dfs_new_facts[of cg v stack] by auto
  ultimately show ?case using visited(1) by (simp add: dfs_vis_visited)
next
  case (fresh v node stack)
  let ?v' = "set_add node v"
  let ?s' = "dfs_push cg v node stack"
  have "\<forall>a \<in> set ?v'. \<forall>b. (a, b) \<in> dd_edges cg \<longrightarrow> b \<in> set ?v' \<union> set ?s'"
  proof (intro ballI allI impI)
    fix a b assume a: "a \<in> set ?v'" and e: "(a, b) \<in> dd_edges cg"
    show "b \<in> set ?v' \<union> set ?s'"
    proof (cases "a = node")
      case True
      with e show ?thesis by (auto simp: set_dfs_push set_set_add dd_edges_def)
    next
      case False
      with a have "a \<in> set v" by (simp add: set_set_add)
      with fresh(3) e have "b \<in> set v \<union> set (node # stack)" by blast
      then show ?thesis by (auto simp: set_dfs_push set_set_add)
    qed
  qed
  from fresh(2)[OF this] have
    c: "\<forall>a \<in> set (dfs_vis cg ?v' ?s'). \<forall>b. (a, b) \<in> dd_edges cg \<longrightarrow> b \<in> set (dfs_vis cg ?v' ?s')"
    and sub: "set ?s' \<subseteq> set (dfs_vis cg ?v' ?s')" by auto
  have "set ?v' \<subseteq> set (dfs_vis cg ?v' ?s')" using dfs_new_facts[of cg ?v' ?s'] by auto
  then have "node \<in> set (dfs_vis cg ?v' ?s')" by (auto simp: set_set_add)
  moreover have "set stack \<subseteq> set (dfs_vis cg ?v' ?s')" using sub by (auto simp: set_dfs_push)
  ultimately show ?case using c fresh(1) by (simp add: dfs_vis_fresh)
qed

lemma components_step_visited:
  "mid \<in> set v \<Longrightarrow> components_step cg mid (v, comps) = (v, comps)"
  by (simp add: components_step_def)

lemma components_step_fresh:
  "mid \<notin> set v \<Longrightarrow>
   components_step cg mid (v, comps) = (dfs_vis cg v [mid], comps @ [dfs_new cg v [mid]])"
  by (simp add: components_step_def dfs_def dfs_vis_def dfs_new_def split: prod.splits)

lemma dfs_new_start: "mid \<notin> set v \<Longrightarrow> dfs_new cg v [mid] \<noteq> [] \<and> hd (dfs_new cg v [mid]) = mid"
  by (simp add: dfs_new_fresh)

lemma dfs_new_is_reachable_set:
  assumes "sym (dd_edges cg)" "mid \<notin> set v"
    and "\<forall>a \<in> set v. \<forall>b. (a, b) \<in> dd_edges cg \<longrightarrow> b \<in> set v"
  shows "set (dfs_new cg v [mid]) = {y. (mid, y) \<in> (dd_edges cg)\<^sup>*}"
proof
  show "set (dfs_new cg v [mid]) \<subseteq> {y. (mid, y) \<in> (dd_edges cg)\<^sup>*}"
    using dfs_new_reachable[of cg v "[mid]"] by auto
next
  have pre: "\<forall>a \<in> set v. \<forall>b. (a, b) \<in> dd_edges cg \<longrightarrow> b \<in> set v \<union> set [mid]"
    using assms(3) by auto
  from dfs_vis_closed[OF pre]
  have closed: "\<And>a b. a \<in> set (dfs_vis cg v [mid]) \<Longrightarrow> (a, b) \<in> dd_edges cg \<Longrightarrow> b \<in> set (dfs_vis cg v [mid])"
    and start: "mid \<in> set (dfs_vis cg v [mid])" by auto
  show "{y. (mid, y) \<in> (dd_edges cg)\<^sup>*} \<subseteq> set (dfs_new cg v [mid])"
  proof
    fix y assume "y \<in> {y. (mid, y) \<in> (dd_edges cg)\<^sup>*}"
    then have r: "(mid, y) \<in> (dd_edges cg)\<^sup>*" by simp
    then have "y \<in> set (dfs_vis cg v [mid])"
      using start closed by (rule closed_no_reach)
    then have "y \<in> set v \<or> y \<in> set (dfs_new cg v [mid])"
      using dfs_new_facts[of cg v "[mid]"] by auto
    moreover have "y \<notin> set v"
    proof
      assume y: "y \<in> set v"
      have "(y, mid) \<in> (dd_edges cg)\<^sup>*"
        using r sym_rtrancl[OF assms(1)] by (auto dest: symD)
      then have "mid \<in> set v" using y
      proof (rule closed_no_reach)
        fix a b assume "a \<in> set v" "(a, b) \<in> dd_edges cg"
        with assms(3) show "b \<in> set v" by blast
      qed
      with assms(2) show False by simp
    qed
    ultimately show "y \<in> set (dfs_new cg v [mid])" by simp
  qed
qed

lemma comps_inv_step:
  assumes "sym (dd_edges cg)" "comps_inv cg st"
  shows "comps_inv cg (components_step cg mid st)"
proof -
  obtain v comps where st: "st = (v, comps)" by (cases st)
  show ?thesis
  proof (cases "mid \<in> set v")
    case True
    with assms(2) show ?thesis by (simp add: st components_step_visited)
  next
    case False
    let ?c = "dfs_new cg v [mid]"
    let ?v' = "dfs_vis cg v [mid]"
    have inv: "set v = set (concat comps)" "distinct (concat comps)"
      "\<forall>a \<in> set v. \<forall>b. (a, b) \<in> dd_edges cg \<longrightarrow> b \<in> set v"
      "\<forall>c \<in> set comps. c \<noteq> [] \<and> set c = {y. (hd c, y) \<in> (dd_edges cg)\<^sup>*}"
      using assms(2) by (auto simp: comps_inv_def st)
    have facts: "set ?v' = set v \<union> set ?c" "set ?c \<inter> set v = {}" "distinct ?c"
      using dfs_new_facts[of cg v "[mid]"] by auto
    have pre: "\<forall>a \<in> set v. \<forall>b. (a, b) \<in> dd_edges cg \<longrightarrow> b \<in> set v \<union> set [mid]"
      using inv(3) by auto
    have closed: "\<forall>a \<in> set ?v'. \<forall>b. (a, b) \<in> dd_edges cg \<longrightarrow> b \<in> set ?v'"
      using dfs_vis_closed[OF pre] by blast
    have reach: "set ?c = {y. (mid, y) \<in> (dd_edges cg)\<^sup>*}"
      by (rule dfs_new_is_reachable_set[OF assms(1) False inv(3)])
    have start: "?c \<noteq> []" "hd ?c = mid" using dfs_new_start[OF False] by auto
    have "set ?v' = set (concat (comps @ [?c]))" using facts(1) inv(1) by auto
    moreover have "distinct (concat (comps @ [?c]))"
      using inv(1,2) facts(2,3) by auto
    moreover have "\<forall>c \<in> set (comps @ [?c]). c \<noteq> [] \<and> set c = {y. (hd c, y) \<in> (dd_edges cg)\<^sup>*}"
      using inv(4) reach start by auto
    ultimately show ?thesis using closed False
      by (simp add: st components_step_fresh comps_inv_def)
  qed
qed

lemma comps_inv_fold:
  "sym (dd_edges cg) \<Longrightarrow> comps_inv cg st \<Longrightarrow> comps_inv cg (fold (components_step cg) xs st)"
  by (induction xs arbitrary: st) (simp_all add: comps_inv_step)

lemma fold_components_covers:
  "set xs \<subseteq> set (fst (fold (components_step cg) xs st)) \<and> set (fst st) \<subseteq> set (fst (fold (components_step cg) xs st))"
proof (induction xs arbitrary: st)
  case Nil
  show ?case by simp
next
  case (Cons x xs)
  obtain v comps where st: "st = (v, comps)" by (cases st)
  have "x \<in> set (fst (components_step cg x st)) \<and> set (fst st) \<subseteq> set (fst (components_step cg x st))"
  proof (cases "x \<in> set v")
    case True
    then show ?thesis by (simp add: st components_step_visited)
  next
    case False
    have "set (dfs_vis cg v [x]) = set v \<union> set (dfs_new cg v [x])"
      using dfs_new_facts[of cg v "[x]"] by blast
    moreover have "x \<in> set (dfs_new cg v [x])" using False by (simp add: dfs_new_fresh)
    ultimately show ?thesis using False by (auto simp: st components_step_fresh)
  qed
  with Cons.IH[of "components_step cg x st"] show ?case by auto
qed

lemma fold_components_heads:
  assumes "set (fst st) = set (concat (snd st))"
  shows "\<exists>news. snd (fold (components_step cg) xs st) = snd st @ news
       \<and> (\<forall>k. length (snd st) \<le> k \<and> k < length (snd st @ news) \<longrightarrow>
             (snd st @ news) ! k \<noteq> []
           \<and> hd ((snd st @ news) ! k)
             = hd (filter (\<lambda>x. x \<notin> set (concat (take k (snd st @ news)))) xs))"
  using assms
proof (induction xs arbitrary: st)
  case Nil
  show ?case by (intro exI[of _ "[]"]) auto
next
  case (Cons x xs)
  obtain v comps where st: "st = (v, comps)" by (cases st)
  have vc: "set v = set (concat comps)" using Cons.prems by (simp add: st)
  show ?case
  proof (cases "x \<in> set v")
    case True
    from Cons.IH[OF Cons.prems] obtain news where
      n1: "snd (fold (components_step cg) xs st) = snd st @ news"
      and n2: "\<And>k. length (snd st) \<le> k \<Longrightarrow> k < length (snd st @ news) \<Longrightarrow>
             (snd st @ news) ! k \<noteq> []
           \<and> hd ((snd st @ news) ! k)
             = hd (filter (\<lambda>x. x \<notin> set (concat (take k (snd st @ news)))) xs)"
      by blast
    have "\<And>k. length (snd st) \<le> k \<Longrightarrow> k < length (snd st @ news) \<Longrightarrow>
             (snd st @ news) ! k \<noteq> []
           \<and> hd ((snd st @ news) ! k)
             = hd (filter (\<lambda>x. x \<notin> set (concat (take k (snd st @ news)))) (x # xs))"
    proof -
      fix k assume k: "length (snd st) \<le> k" "k < length (snd st @ news)"
      have "x \<in> set (concat (take k (snd st @ news)))"
        using True vc k(1) by (auto simp: st)
      then have feq: "filter (\<lambda>x. x \<notin> set (concat (take k (snd st @ news)))) (x # xs)
          = filter (\<lambda>x. x \<notin> set (concat (take k (snd st @ news)))) xs"
        by simp
      show "(snd st @ news) ! k \<noteq> []
           \<and> hd ((snd st @ news) ! k)
             = hd (filter (\<lambda>x. x \<notin> set (concat (take k (snd st @ news)))) (x # xs))"
        unfolding feq by (rule n2[OF k])
    qed
    moreover have "snd (fold (components_step cg) (x # xs) st) = snd st @ news"
      using n1 True by (simp add: st components_step_visited)
    ultimately show ?thesis by blast
  next
    case False
    let ?c = "dfs_new cg v [x]"
    let ?st1 = "(dfs_vis cg v [x], comps @ [?c])"
    have s1: "components_step cg x st = ?st1" using False by (simp add: st components_step_fresh)
    have "set (dfs_vis cg v [x]) = set v \<union> set ?c" using dfs_new_facts[of cg v "[x]"] by blast
    then have pre1: "set (fst ?st1) = set (concat (snd ?st1))" using vc by auto
    from Cons.IH[OF pre1] obtain news where
      n1: "snd (fold (components_step cg) xs ?st1) = (comps @ [?c]) @ news"
      and n2: "\<And>k. length (comps @ [?c]) \<le> k \<Longrightarrow> k < length ((comps @ [?c]) @ news) \<Longrightarrow>
             ((comps @ [?c]) @ news) ! k \<noteq> []
           \<and> hd (((comps @ [?c]) @ news) ! k)
             = hd (filter (\<lambda>x. x \<notin> set (concat (take k ((comps @ [?c]) @ news)))) xs)"
      by auto
    have start: "?c \<noteq> []" "hd ?c = x" using dfs_new_start[OF False] by auto
    then have xc: "x \<in> set ?c" by (cases ?c) auto
    let ?all = "comps @ (?c # news)"
    have r: "snd (fold (components_step cg) (x # xs) st) = snd st @ (?c # news)"
      using n1 s1 by (simp add: st)
    have "\<And>k. length comps \<le> k \<Longrightarrow> k < length ?all \<Longrightarrow>
             ?all ! k \<noteq> [] \<and> hd (?all ! k) = hd (filter (\<lambda>x. x \<notin> set (concat (take k ?all))) (x # xs))"
    proof -
      fix k assume k: "length comps \<le> k" "k < length ?all"
      show "?all ! k \<noteq> [] \<and> hd (?all ! k) = hd (filter (\<lambda>x. x \<notin> set (concat (take k ?all))) (x # xs))"
      proof (cases "k = length comps")
        case True
        have "x \<notin> set (concat (take k ?all))" using True False vc by simp
        then show ?thesis using True start by simp
      next
        case neq: False
        with k have k1: "length (comps @ [?c]) \<le> k" "k < length ((comps @ [?c]) @ news)" by auto
        have "x \<in> set (concat (take k ?all))"
        proof -
          have "take k ?all = comps @ ?c # take (k - Suc (length comps)) news"
            using k neq by (auto simp: take_Cons')
          then show ?thesis using xc by simp
        qed
        then have feq: "filter (\<lambda>x. x \<notin> set (concat (take k ?all))) (x # xs)
            = filter (\<lambda>x. x \<notin> set (concat (take k ?all))) xs"
          by simp
        have all: "(comps @ [?c]) @ news = ?all" by simp
        show ?thesis unfolding feq using n2[OF k1] unfolding all .
      qed
    qed
    with r show ?thesis by (intro exI[of _ "?c # news"]) (simp add: st)
  qed
qed

lemma dd_edges_comparison_step:
  "dd_edges (comparison_step S p cg)
   = dd_edges cg \<union> (case p of (a, b, c) \<Rightarrow> if a \<in> S \<and> b \<in> S then {(a, b), (b, a)} else {})"
  by (cases p) (auto simp: comparison_step_def dd_edges_dd_add)

lemma sym_comparison_step: "sym (dd_edges cg) \<Longrightarrow> sym (dd_edges (comparison_step S p cg))"
  by (cases p) (auto simp: dd_edges_comparison_step sym_def)

lemma sym_fold_comparison:
  "sym (dd_edges cg) \<Longrightarrow> sym (dd_edges (fold (comparison_step S) prefs cg))"
  by (induction prefs arbitrary: cg) (simp_all add: sym_comparison_step)

lemma sym_comparison_graph: "sym (dd_edges (build_comparison_graph S prefs))"
  unfolding build_comparison_graph_def
  by (rule sym_fold_comparison) (simp add: dd_edges_empty sym_def)

lemma comps_inv_find:
  assumes "sym (dd_edges cg)"
  shows "comps_inv cg (fold (components_step cg) xs ([], []))"
  by (rule comps_inv_fold[OF assms]) (simp add: comps_inv_def)

lemma find_components_partition:
  assumes "sym (dd_edges cg)" "dd_nodes cg \<subseteq> set xs"
  shows "distinct (concat (find_components cg xs))"
    and "set (concat (find_components cg xs)) = set xs"
    and "\<forall>c \<in> set (find_components cg xs). c \<noteq> [] \<and> set c = {y. (hd c, y) \<in> (dd_edges cg)\<^sup>*}"
proof -
  let ?r = "fold (components_step cg) xs ([], [])"
  have inv: "comps_inv cg ?r" by (rule comps_inv_find[OF assms(1)])
  show "distinct (concat (find_components cg xs))"
    using inv by (simp add: comps_inv_def find_components_def)
  show "\<forall>c \<in> set (find_components cg xs). c \<noteq> [] \<and> set c = {y. (hd c, y) \<in> (dd_edges cg)\<^sup>*}"
    using inv by (simp add: comps_inv_def find_components_def)
  have "set xs \<subseteq> set (fst ?r)" using fold_components_covers[of xs cg "([], [])"] by simp
  then have a: "set xs \<subseteq> set (concat (find_components cg xs))"
    using inv by (simp add: comps_inv_def find_components_def)
  have b: "set (concat (find_components cg xs)) \<subseteq> set xs"
    using find_components_subset[OF assms(2)] by auto
  from a b show "set (concat (find_components cg xs)) = set xs" by auto
qed

lemma find_components_connected:
  assumes "sym (dd_edges cg)" "dd_nodes cg \<subseteq> set xs" "x \<in> set xs"
  shows "(\<exists>c \<in> set (find_components cg xs). x \<in> set c \<and> y \<in> set c) \<longleftrightarrow> (x, y) \<in> (dd_edges cg)\<^sup>*"
proof
  assume "\<exists>c \<in> set (find_components cg xs). x \<in> set c \<and> y \<in> set c"
  then obtain c where c: "c \<in> set (find_components cg xs)" "x \<in> set c" "y \<in> set c" by blast
  with find_components_partition(3)[OF assms(1,2)]
  have "(hd c, x) \<in> (dd_edges cg)\<^sup>*" "(hd c, y) \<in> (dd_edges cg)\<^sup>*" by auto
  moreover from this(1) have "(x, hd c) \<in> (dd_edges cg)\<^sup>*"
    using sym_rtrancl[OF assms(1)] by (auto dest: symD)
  ultimately show "(x, y) \<in> (dd_edges cg)\<^sup>*" by auto
next
  assume r: "(x, y) \<in> (dd_edges cg)\<^sup>*"
  from assms(3) find_components_partition(2)[OF assms(1,2)]
  obtain c where c: "c \<in> set (find_components cg xs)" "x \<in> set c" by auto
  with find_components_partition(3)[OF assms(1,2)]
  have s: "set c = {y. (hd c, y) \<in> (dd_edges cg)\<^sup>*}" by blast
  with c(2) have "(hd c, x) \<in> (dd_edges cg)\<^sup>*" by auto
  with r have "(hd c, y) \<in> (dd_edges cg)\<^sup>*" by auto
  with s have "y \<in> set c" by auto
  with c show "\<exists>c \<in> set (find_components cg xs). x \<in> set c \<and> y \<in> set c" by blast
qed

lemma find_components_heads:
  assumes "k < length (find_components cg xs)"
  shows "find_components cg xs ! k \<noteq> []
       \<and> hd (find_components cg xs ! k)
         = hd (filter (\<lambda>x. x \<notin> set (concat (take k (find_components cg xs)))) xs)"
  using fold_components_heads[of "([], [])" cg xs] assms
  by (auto simp: find_components_def)

lemma main_of_sorted:
  assumes "comps \<noteq> []"
  shows "\<exists>pre post. comps = pre @ main_of (sort_components comps) # post
       \<and> (\<forall>c \<in> set pre. length c < length (main_of (sort_components comps)))
       \<and> (\<forall>c \<in> set post. length c \<le> length (main_of (sort_components comps)))"
proof -
  let ?f = "\<lambda>x :: int list. - int (length x)"
  have "length (sort_key ?f comps) = length comps" by simp
  with assms obtain m rest where ms: "sort_key ?f comps = m # rest"
    by (cases "sort_key ?f comps") auto
  then have main: "main_of (sort_components comps) = m"
    by (simp add: main_of_def sort_components_def)
  have "sorted (map ?f (sort_key ?f comps))" by (rule sorted_sort_key)
  then have le: "\<forall>y \<in> set (m # rest). ?f m \<le> ?f y" unfolding ms by auto
  have "set (m # rest) = set comps" using ms by (metis set_sort)
  with le have le': "\<And>y. y \<in> set comps \<Longrightarrow> length y \<le> length m" by auto
  have "filter (\<lambda>y. ?f y = ?f m) (sort_key ?f comps) = filter (\<lambda>y. ?f y = ?f m) comps"
    by (rule sort_key_stable)
  then have "filter (\<lambda>y. ?f y = ?f m) comps = m # filter (\<lambda>y. ?f y = ?f m) rest"
    unfolding ms by simp
  then obtain us vs where uv: "comps = us @ m # vs" "\<forall>u \<in> set us. ?f u \<noteq> ?f m"
    unfolding filter_eq_Cons_iff by blast
  have "\<forall>c \<in> set us. length c < length m"
  proof
    fix c assume c: "c \<in> set us"
    then have "length c \<le> length m" using le' uv(1) by auto
    moreover have "length c \<noteq> length m" using uv(2) c by auto
    ultimately show "length c < length m" by simp
  qed
  moreover have "\<forall>c \<in> set vs. length c \<le> length m" using le' uv(1) by auto
  ultimately show ?thesis unfolding main using uv(1) by blast
qed

lemma rank_loop_keeps_unranked: "set u \<subseteq> set (snd (rank_loop graph st r u))"
proof (induction graph st r u rule: rank_loop.induct)
  case (1 graph st current_rank unranked_ids)
  show ?case
  proof (cases "rs_remaining st = [] \<or> rank_sources st = []")
    case True
    then show ?thesis by (auto simp: rank_loop.simps[of graph st])
  next
    case False
    with 1 show ?thesis by (simp add: rank_loop.simps[of graph st])
  qed
qed

lemma outside_main_unranked:
  assumes "x \<in> set to_rank"
    and "x \<notin> set (main_of (sort_components (find_components (build_comparison_graph (set to_rank) prefs) to_rank)))"
  shows "x \<in> snd (rank_movies prefs to_rank) \<and> fst (rank_movies prefs to_rank) x = None"
proof -
  let ?graph = "fst (build_graph (set to_rank) prefs)"
  let ?main = "main_of (sort_components (find_components (build_comparison_graph (set to_rank) prefs) to_rank))"
  let ?u = "filter (\<lambda>mid. mid \<notin> set ?main) to_rank"
  let ?st = "\<lparr>rs_rank_map = Map.empty, rs_remaining = ?main,
              rs_in_degree = init_component_in_degree ?graph ?main\<rparr>"
  have "x \<in> set ?u" using assms by simp
  then have "x \<in> set (snd (rank_loop ?graph ?st 1 ?u))"
    using rank_loop_keeps_unranked[of ?u ?graph ?st 1] by blast
  moreover have "snd (rank_movies prefs to_rank) = set (snd (rank_loop ?graph ?st 1 ?u))"
    by (simp add: rank_movies_def Let_def split: prod.splits)
  ultimately have a: "x \<in> snd (rank_movies prefs to_rank)" by simp
  with rank_movies_partition[of prefs to_rank]
  have "x \<notin> dom (fst (rank_movies prefs to_rank))" by blast
  with a show ?thesis by (simp add: domIff)
qed

text \<open>
  Claim C9, amended. The components are discovered in the order of \<open>movies_to_rank\<close>,
  which is the order in which Python iterates the set \<open>compared_movie_ids\<close> (a permutation
  of the compared ids, filtered by the target set), not the order of first appearance in the
  statements. They partition \<open>movies_to_rank\<close> and are the connected components of the
  comparison graph; the \<open>k\<close>-th component starts at the first candidate of that order that
  is in no earlier component. The main component is the first component of maximal size in
  the discovery order, and every candidate outside it is unranked and has no rank.
\<close>

theorem components_follow_set_iteration_order:
  fixes so prefs target
  defines "to_rank \<equiv> movies_to_rank so prefs target"
    and "cg \<equiv> build_comparison_graph (set (movies_to_rank so prefs target)) prefs"
    and "comps \<equiv> user_components so prefs target"
    and "main \<equiv> main_component so prefs target"
  shows "to_rank = filter (\<lambda>mid. mid \<in> target) (py_iter so (compared_movie_ids prefs))
       \<and> mset (py_iter so (compared_movie_ids prefs)) = mset (compared_movie_ids prefs)
       \<and> distinct (concat comps) \<and> set (concat comps) = set to_rank
       \<and> (\<forall>x \<in> set to_rank. \<forall>y.
            (\<exists>c \<in> set comps. x \<in> set c \<and> y \<in> set c) \<longleftrightarrow> (x, y) \<in> (dd_edges cg)\<^sup>*)
       \<and> (\<forall>k < length comps.
            comps ! k \<noteq> []
          \<and> hd (comps ! k) = hd (filter (\<lambda>x. x \<notin> set (concat (take k comps))) to_rank))
       \<and> (to_rank \<noteq> [] \<longrightarrow>
            (\<exists>pre post. comps = pre @ main # post
               \<and> (\<forall>c \<in> set pre. length c < length main)
               \<and> (\<forall>c \<in> set post. length c \<le> length main)))
       \<and> (\<forall>x \<in> set to_rank. x \<notin> set main \<longrightarrow>
            x \<in> snd (compute_user_rankings so prefs target)
          \<and> fst (compute_user_rankings so prefs target) x = None)"
proof -
  have sym: "sym (dd_edges cg)" unfolding cg_def by (rule sym_comparison_graph)
  have nodes: "dd_nodes cg \<subseteq> set to_rank"
    unfolding cg_def to_rank_def by (rule dd_nodes_comparison_graph)
  have comps: "comps = find_components cg to_rank"
    by (simp add: comps_def user_components_def cg_def to_rank_def)
  have main: "main = main_of (sort_components comps)"
    by (simp add: main_def main_component_def comps_def)
  have p1: "to_rank = filter (\<lambda>mid. mid \<in> target) (py_iter so (compared_movie_ids prefs))"
    by (simp add: to_rank_def movies_to_rank_def)
  have p2: "mset (py_iter so (compared_movie_ids prefs)) = mset (compared_movie_ids prefs)"
    by (rule mset_py_iter)
  have p3: "distinct (concat comps)" "set (concat comps) = set to_rank"
    unfolding comps using find_components_partition(1,2)[OF sym nodes] by auto
  have p4: "\<forall>x \<in> set to_rank. \<forall>y.
            (\<exists>c \<in> set comps. x \<in> set c \<and> y \<in> set c) \<longleftrightarrow> (x, y) \<in> (dd_edges cg)\<^sup>*"
    unfolding comps using find_components_connected[OF sym nodes] by blast
  have p5: "\<forall>k < length comps.
            comps ! k \<noteq> []
          \<and> hd (comps ! k) = hd (filter (\<lambda>x. x \<notin> set (concat (take k comps))) to_rank)"
    unfolding comps using find_components_heads by blast
  have p6: "to_rank \<noteq> [] \<longrightarrow>
            (\<exists>pre post. comps = pre @ main # post
               \<and> (\<forall>c \<in> set pre. length c < length main)
               \<and> (\<forall>c \<in> set post. length c \<le> length main))"
  proof
    assume "to_rank \<noteq> []"
    then have "set (concat comps) \<noteq> {}" using p3(2) by simp
    then have "comps \<noteq> []" by auto
    from main_of_sorted[OF this] show "\<exists>pre post. comps = pre @ main # post
               \<and> (\<forall>c \<in> set pre. length c < length main)
               \<and> (\<forall>c \<in> set post. length c \<le> length main)"
      unfolding main .
  qed
  have p7: "\<forall>x \<in> set to_rank. x \<notin> set main \<longrightarrow>
            x \<in> snd (compute_user_rankings so prefs target)
          \<and> fst (compute_user_rankings so prefs target) x = None"
  proof (intro ballI impI)
    fix x assume x: "x \<in> set to_rank" "x \<notin> set main"
    then have ne: "to_rank \<noteq> []" by auto
    have "prefs \<noteq> []"
    proof
      assume "prefs = []"
      then have "set to_rank = {}"
        using set_movies_to_rank[of so prefs target] by (simp add: to_rank_def)
      with ne show False by simp
    qed
    with ne have eq: "compute_user_rankings so prefs target = rank_movies prefs to_rank"
      by (simp add: compute_user_rankings_def to_rank_def)
    from x(2) have "x \<notin> set (main_of (sort_components
        (find_components (build_comparison_graph (set to_rank) prefs) to_rank)))"
      by (simp add: main comps cg_def to_rank_def)
    from outside_main_unranked[OF x(1) this] show
      "x \<in> snd (compute_user_rankings so prefs target)
          \<and> fst (compute_user_rankings so prefs target) x = None"
      unfolding eq .
  qed
  from p1 p2 p3 p4 p5 p6 p7 show ?thesis by blast
qed

text \<open>
  An example with the ids \<open>5, 6, 1, 2\<close>. CPython keeps a set of fewer than five small
  non-negative ints in a table of eight slots, each int at the slot of its value, and
  iterates the slots upwards: the set built by adding \<open>5, 6, 1, 2\<close> is iterated as
  \<open>1, 2, 5, 6\<close>, which is \<open>sort\<close> here.
\<close>

lemma ex_compared: "compared_movie_ids [(5, 6, 1), (1, 2, 1)] = [5, 6, 1, 2]"
  by (simp add: compared_movie_ids_def set_add_def)

lemma ex_to_rank: "movies_to_rank sort [(5, 6, 1), (1, 2, 1)] {1, 2, 5, 6} = [1, 2, 5, 6]"
  by (simp add: movies_to_rank_def ex_compared py_iter_def)

lemma ex_comps: "user_components sort [(5, 6, 1), (1, 2, 1)] {1, 2, 5, 6} = [[1, 2], [5, 6]]"
  by (simp add: user_components_def ex_to_rank rank_eval)

lemma ex_main: "main_component sort [(5, 6, 1), (1, 2, 1)] {1, 2, 5, 6} = [1, 2]"
  by (simp add: main_component_def ex_comps sort_components_def main_of_def)

lemma ex_rank:
  "compute_user_rankings sort [(5, 6, 1), (1, 2, 1)] {1, 2, 5, 6} = ([1 \<mapsto> 1, 2 \<mapsto> 2], {5, 6})"
  by (simp add: compute_user_rankings_def ex_to_rank rank_eval numeral_2_eq_2)

lemma ex_first_appearance:
  "find_components (build_comparison_graph {1, 2, 5, 6} [(5, 6, 1), (1, 2, 1)])
     (filter (\<lambda>mid. mid \<in> {1, 2, 5, 6}) (compared_movie_ids [(5, 6, 1), (1, 2, 1)]))
   = [[5, 6], [1, 2]]"
  by (simp add: ex_compared rank_eval)

text \<open>
  Claim C9 as stated fails: the voter states \<open>5 \<succ> 6\<close> and then \<open>1 \<succ> 2\<close>. Candidate
  \<open>5\<close> appears first, and both components have two candidates, so by the claim
  \<open>{5, 6}\<close> would be discovered first and be the main component. The code discovers
  \<open>{1, 2}\<close> first, ranks \<open>1\<close> and \<open>2\<close>, and leaves \<open>5\<close> and \<open>6\<close> unranked.
\<close>

theorem first_appearance_order_refuted:
  "compared_movie_ids [(5, 6, 1), (1, 2, 1)] = [5, 6, 1, 2]
   \<and> movies_to_rank sort [(5, 6, 1), (1, 2, 1)] {1, 2, 5, 6} = [1, 2, 5, 6]
   \<and> user_components sort [(5, 6, 1), (1, 2, 1)] {1, 2, 5, 6} = [[1, 2], [5, 6]]
   \<and> main_component sort [(5, 6, 1), (1, 2, 1)] {1, 2, 5, 6} = [1, 2]
   \<and> compute_user_rankings sort [(5, 6, 1), (1, 2, 1)] {1, 2, 5, 6} = ([1 \<mapsto> 1, 2 \<mapsto> 2], {5, 6})"
  using ex_compared ex_to_rank ex_comps ex_main ex_rank by blast

theorem components_follow_set_iteration_order_witness:
  "movies_to_rank sort [(5, 6, 1), (1, 2, 1)] {1, 2, 5, 6} \<noteq> []
   \<and> (\<exists>pre post. user_components sort [(5, 6, 1), (1, 2, 1)] {1, 2, 5, 6}
          = pre @ main_component sort [(5, 6, 1), (1, 2, 1)] {1, 2, 5, 6} # post
        \<and> (\<forall>c \<in> set pre. length c < length (main_component sort [(5, 6, 1), (1, 2, 1)] {1, 2, 5, 6}))
        \<and> (\<forall>c \<in> set post. length c \<le> length (main_component sort [(5, 6, 1), (1, 2, 1)] {1, 2, 5, 6})))
   \<and> 5 \<in> snd (compute_user_rankings sort [(5, 6, 1), (1, 2, 1)] {1, 2, 5, 6})"
proof -
  note t = components_follow_set_iteration_order[of sort "[(5, 6, 1), (1, 2, 1)]" "{1, 2, 5, 6}"]
  have ne: "movies_to_rank sort [(5, 6, 1), (1, 2, 1)] {1, 2, 5, 6} \<noteq> []"
    by (simp add: ex_to_rank)
  have five: "5 \<in> set (movies_to_rank sort [(5, 6, 1), (1, 2, 1)] {1, 2, 5, 6})"
    "5 \<notin> set (main_component sort [(5, 6, 1), (1, 2, 1)] {1, 2, 5, 6})"
    by (simp_all add: ex_to_rank ex_main)
  from t ne five show ?thesis by blast
qed


end
